theory Spec2Isabelle
  imports Complex_Main "HOL-Library.Log_Nat" "HOL-Library.Multiset" "HOL-Library.Product_Lexorder"
begin

section \<open>Numbers of the source: binary64 floats and decimals\<close>

text \<open>
  \<^verbatim>\<open>impression_share.py\<close> holds impression shares as Python \<^verbatim>\<open>float\<close> (IEEE 754
  binary64) and bids as \<^verbatim>\<open>decimal.Decimal\<close>; both are modelled with their special
  values and with the rounding of every operation the source performs.

  Exceptions are values: a function that can raise returns \<open>py_error + 'a\<close>.
\<close>

datatype py_error = ValueError | OverflowError | InvalidOperation | DecimalOverflow

subsection \<open>Rounding to binary64\<close>

definition round_half_even :: "rat \<Rightarrow> int" where
  "round_half_even x =
     (let f = \<lfloor>x\<rfloor>; d = x - of_int f
      in if d < 1 / 2 then f
         else if 1 / 2 < d then f + 1
         else if even f then f else f + 1)"

text \<open>The binary exponent of a positive rational: \<open>2 powi expo x \<le> x < 2 powi (expo x + 1)\<close>.\<close>

definition expo :: "rat \<Rightarrow> int" where
  "expo x =
     (let (a, b) = quotient_of x;
          d = int (floorlog 2 (nat a)) - int (floorlog 2 (nat b))
      in if 2 powi d \<le> x then d else d - 1)"

definition quantum :: "rat \<Rightarrow> int" where
  "quantum x = max (expo \<bar>x\<bar> - 52) (- 1074)"

text \<open>
  Round to the nearest point of the binary64 grid, ties to even: 53 significant bits,
  gradual underflow with least quantum \<open>2 powi -1074\<close>, exponent not yet bounded above.
\<close>

definition rnd :: "rat \<Rightarrow> rat" where
  "rnd x = (if x = 0 then 0
            else of_int (round_half_even (x / 2 powi quantum x)) * 2 powi quantum x)"

text \<open>The finite binary64 values.\<close>

definition is_double :: "rat \<Rightarrow> bool" where
  "is_double x \<longleftrightarrow> rnd x = x \<and> \<bar>x\<bar> < 2 ^ 1024"

subsection \<open>Python floats\<close>

text \<open>
  A float is a finite value (the rational it denotes), an infinity or NaN. The two zeros
  are identified: the source never prints a float and no operation it uses tells them
  apart.
\<close>

datatype pyfloat = Fl rat | PInf | NInf | FNaN

text \<open>The floats of the model that are floats of Python: a finite value is a binary64 value.\<close>

definition is_float :: "pyfloat \<Rightarrow> bool" where
  "is_float x = (case x of Fl q \<Rightarrow> is_double q | PInf \<Rightarrow> True | NInf \<Rightarrow> True | FNaN \<Rightarrow> True)"

text \<open>The result of an operation whose exact value is \<open>x\<close>: rounded, overflowing to infinity.\<close>

definition fl_round :: "rat \<Rightarrow> pyfloat" where
  "fl_round x =
     (let r = rnd x
      in if 2 ^ 1024 \<le> r then PInf else if r \<le> - (2 ^ 1024) then NInf else Fl r)"

text \<open>A decimal literal of the source text, such as \<^verbatim>\<open>0.5\<close>, is the nearest binary64 value.\<close>

definition float_lit :: "rat \<Rightarrow> pyfloat" where
  "float_lit q = fl_round q"

text \<open>
  \<^verbatim>\<open>x * c\<close> and \<^verbatim>\<open>x / c\<close> for a finite positive constant \<open>c\<close>; the source multiplies by
  \<^verbatim>\<open>100\<close> and divides by \<^verbatim>\<open>100.0\<close> only.
\<close>

definition float_mul :: "pyfloat \<Rightarrow> rat \<Rightarrow> pyfloat" where
  "float_mul x c = (case x of Fl q \<Rightarrow> fl_round (q * c) | PInf \<Rightarrow> PInf | NInf \<Rightarrow> NInf | FNaN \<Rightarrow> FNaN)"

definition float_div :: "pyfloat \<Rightarrow> rat \<Rightarrow> pyfloat" where
  "float_div x c = (case x of Fl q \<Rightarrow> fl_round (q / c) | PInf \<Rightarrow> PInf | NInf \<Rightarrow> NInf | FNaN \<Rightarrow> FNaN)"

text \<open>Comparisons: every comparison with NaN is false.\<close>

fun fl_less :: "pyfloat \<Rightarrow> pyfloat \<Rightarrow> bool" where
  "fl_less (Fl x) (Fl y) = (x < y)"
| "fl_less (Fl x) PInf = True"
| "fl_less NInf (Fl y) = True"
| "fl_less NInf PInf = True"
| "fl_less _ _ = False"

fun fl_le :: "pyfloat \<Rightarrow> pyfloat \<Rightarrow> bool" where
  "fl_le (Fl x) (Fl y) = (x \<le> y)"
| "fl_le FNaN _ = False"
| "fl_le _ FNaN = False"
| "fl_le NInf _ = True"
| "fl_le _ PInf = True"
| "fl_le _ _ = False"

text \<open>Truthiness of a float: only zero is falsy.\<close>

definition fl_truthy :: "pyfloat \<Rightarrow> bool" where
  "fl_truthy x \<longleftrightarrow> x \<noteq> Fl 0"

text \<open>
  Python's \<^verbatim>\<open>int(x)\<close> on a float truncates towards zero; it raises \<^verbatim>\<open>ValueError\<close> on NaN
  and \<^verbatim>\<open>OverflowError\<close> on an infinity.
\<close>

definition py_int :: "pyfloat \<Rightarrow> py_error + int" where
  "py_int x =
     (case x of
        Fl q \<Rightarrow> Inr (if 0 \<le> q then \<lfloor>q\<rfloor> else \<lceil>q\<rceil>)
      | PInf \<Rightarrow> Inl OverflowError
      | NInf \<Rightarrow> Inl OverflowError
      | FNaN \<Rightarrow> Inl ValueError)"

subsection \<open>Rendering integers\<close>

fun str_nat :: "nat \<Rightarrow> string" where
  "str_nat n =
     (if n < 10 then [''0123456789'' ! n]
      else str_nat (n div 10) @ [''0123456789'' ! (n mod 10)])"

definition str_int :: "int \<Rightarrow> string" where
  "str_int i = (if i < 0 then ''-'' @ str_nat (nat (- i)) else str_nat (nat i))"

subsection \<open>Decimals\<close>

text \<open>
  A \<^verbatim>\<open>Decimal\<close> is a sign, a coefficient and an exponent (\<open>Dec s c e\<close> denotes
  \<open>\<plusminus> c * 10 powi e\<close>, and keeps its exponent: \<^verbatim>\<open>1.50\<close> is \<open>Dec False 150 (- 2)\<close>), an
  infinity, or a quiet or signalling NaN with a sign and a payload (0 for none).

  Arithmetic runs in the default context, which the source never changes: precision 28,
  \<^verbatim>\<open>ROUND_HALF_EVEN\<close>, \<^verbatim>\<open>Emin = -999999\<close>, \<^verbatim>\<open>Emax = 999999\<close>, no clamping; the traps
  \<^verbatim>\<open>InvalidOperation\<close> and \<^verbatim>\<open>Overflow\<close> raise, underflow and inexact results do not.
\<close>

datatype decimal = Dec bool nat int | DInf bool | DNaN bool nat | DsNaN bool nat

definition dec_prec :: nat where
  "dec_prec = 28"

definition dec_Emax :: int where
  "dec_Emax = 999999"

definition dec_Emin :: int where
  "dec_Emin = - 999999"

definition dec_Etiny :: int where
  "dec_Etiny = dec_Emin - int dec_prec + 1"

definition dec_Etop :: int where
  "dec_Etop = dec_Emax - int dec_prec + 1"

text \<open>The number of decimal digits of a positive coefficient.\<close>

definition ndigits :: "nat \<Rightarrow> nat" where
  "ndigits c = floorlog 10 c"

text \<open>The rational a finite decimal denotes.\<close>

definition dec_val :: "bool \<Rightarrow> nat \<Rightarrow> int \<Rightarrow> rat" where
  "dec_val s c e = (if s then - 1 else 1) * of_nat c * 10 powi e"

text \<open>
  \<^verbatim>\<open>Decimal._fix\<close>: fit an exact finite result to the context. A zero keeps its sign and
  has its exponent clipped to \<open>[Etiny, Emax]\<close>. A result with too many digits, or below
  \<open>Etiny\<close>, is rounded half-even; a result above \<open>Emax\<close> raises \<^verbatim>\<open>Overflow\<close>.
\<close>

definition dec_fix :: "bool \<Rightarrow> nat \<Rightarrow> int \<Rightarrow> py_error + decimal" where
  "dec_fix s c e =
     (if c = 0 then Inr (Dec s 0 (min (max e dec_Etiny) dec_Emax))
      else
        let exp_min = int (ndigits c) + e - int dec_prec
        in if dec_Etop < exp_min then Inl DecimalOverflow
           else
             let exp_min = max exp_min dec_Etiny
             in if e < exp_min then
                  let coeff = nat (round_half_even (of_nat c / 10 ^ nat (exp_min - e)));
                      (coeff, exp_min) =
                        (if dec_prec < ndigits coeff then (coeff div 10, exp_min + 1)
                         else (coeff, exp_min))
                  in if dec_Etop < exp_min then Inl DecimalOverflow
                     else Inr (Dec s coeff exp_min)
                else Inr (Dec s c e))"

text \<open>
  \<^verbatim>\<open>Decimal.__mul__\<close>: a signalling NaN raises, a quiet NaN is returned with its payload
  cut to the precision, infinity times zero raises, and a finite product is fixed.
\<close>

fun dec_mul :: "decimal \<Rightarrow> decimal \<Rightarrow> py_error + decimal" where
  "dec_mul (DsNaN s p) b = Inl InvalidOperation"
| "dec_mul (Dec s c e) (DsNaN t p) = Inl InvalidOperation"
| "dec_mul (DInf s) (DsNaN t p) = Inl InvalidOperation"
| "dec_mul (DNaN s p) (DsNaN t q) = Inl InvalidOperation"
| "dec_mul (DNaN s p) (Dec t d f) = Inr (DNaN s (p mod 10 ^ dec_prec))"
| "dec_mul (DNaN s p) (DInf t) = Inr (DNaN s (p mod 10 ^ dec_prec))"
| "dec_mul (DNaN s p) (DNaN t q) = Inr (DNaN s (p mod 10 ^ dec_prec))"
| "dec_mul (Dec s c e) (DNaN t p) = Inr (DNaN t (p mod 10 ^ dec_prec))"
| "dec_mul (DInf s) (DNaN t p) = Inr (DNaN t (p mod 10 ^ dec_prec))"
| "dec_mul (DInf s) (Dec t d f) = (if d = 0 then Inl InvalidOperation else Inr (DInf (s \<noteq> t)))"
| "dec_mul (Dec s c e) (DInf t) = (if c = 0 then Inl InvalidOperation else Inr (DInf (s \<noteq> t)))"
| "dec_mul (DInf s) (DInf t) = Inr (DInf (s \<noteq> t))"
| "dec_mul (Dec s c e) (Dec t d f) = dec_fix (s \<noteq> t) (c * d) (e + f)"

text \<open>Numeric order and equality of decimals that are numbers (finite or infinite).\<close>

fun dec_num_less :: "decimal \<Rightarrow> decimal \<Rightarrow> bool" where
  "dec_num_less (Dec s c e) (Dec t d f) = (dec_val s c e < dec_val t d f)"
| "dec_num_less (Dec s c e) (DInf t) = (\<not> t)"
| "dec_num_less (DInf s) (Dec t d f) = s"
| "dec_num_less (DInf s) (DInf t) = (s \<and> \<not> t)"
| "dec_num_less _ _ = False"

fun dec_num_eq :: "decimal \<Rightarrow> decimal \<Rightarrow> bool" where
  "dec_num_eq (Dec s c e) (Dec t d f) = (dec_val s c e = dec_val t d f)"
| "dec_num_eq (DInf s) (DInf t) = (s = t)"
| "dec_num_eq _ _ = False"

definition dec_is_snan :: "decimal \<Rightarrow> bool" where
  "dec_is_snan a = (case a of DsNaN s p \<Rightarrow> True | _ \<Rightarrow> False)"

definition dec_is_nan :: "decimal \<Rightarrow> bool" where
  "dec_is_nan a = (case a of DNaN s p \<Rightarrow> True | DsNaN s p \<Rightarrow> True | _ \<Rightarrow> False)"

text \<open>
  \<^verbatim>\<open>a == b\<close> raises on a signalling NaN and is false on a quiet NaN; \<^verbatim>\<open>a > b\<close> raises on
  every NaN.
\<close>

definition dec_eq :: "decimal \<Rightarrow> decimal \<Rightarrow> py_error + bool" where
  "dec_eq a b =
     (if dec_is_snan a \<or> dec_is_snan b then Inl InvalidOperation
      else if dec_is_nan a \<or> dec_is_nan b then Inr False
      else Inr (dec_num_eq a b))"

definition dec_gt :: "decimal \<Rightarrow> decimal \<Rightarrow> py_error + bool" where
  "dec_gt a b =
     (if dec_is_nan a \<or> dec_is_nan b then Inl InvalidOperation
      else Inr (dec_num_less b a))"

text \<open>
  \<^verbatim>\<open>f"{d:.2f}"\<close>: a finite decimal is rescaled to two places, rounded half-even, and
  keeps its sign; the special values are spelled out.
\<close>

definition dec_sign_str :: "bool \<Rightarrow> string" where
  "dec_sign_str s = (if s then ''-'' else [])"

definition dec_payload_str :: "nat \<Rightarrow> string" where
  "dec_payload_str p = (if p = 0 then [] else str_nat p)"

definition fmt2f :: "decimal \<Rightarrow> string" where
  "fmt2f a =
     (case a of
        Dec s c e \<Rightarrow>
          (let n = nat (round_half_even (of_nat c * 10 powi (e + 2)))
           in dec_sign_str s @ str_nat (n div 100) @ ''.''
              @ [''0123456789'' ! (n mod 100 div 10), ''0123456789'' ! (n mod 10)])
      | DInf s \<Rightarrow> dec_sign_str s @ ''Infinity''
      | DNaN s p \<Rightarrow> dec_sign_str s @ ''NaN'' @ dec_payload_str p
      | DsNaN s p \<Rightarrow> dec_sign_str s @ ''sNaN'' @ dec_payload_str p)"

section \<open>The data model\<close>

record KeywordShareData =
  campaign_id :: int
  campaign_name :: string
  ad_group_id :: int
  ad_group_name :: string
  keyword_id :: int
  keyword :: string
  country :: string
  current_bid :: decimal
  currency :: string
  low_share :: "pyfloat option"
  high_share :: "pyfloat option"
  rank :: "int option"
  search_popularity :: "int option"

text \<open>
  One side of the share range, \<^verbatim>\<open>f"{int(share * 100)}" if share else default\<close>: a share
  is falsy when it is \<^verbatim>\<open>None\<close> or zero.
\<close>

definition share_pct :: "pyfloat option \<Rightarrow> string \<Rightarrow> py_error + string" where
  "share_pct share dflt =
     (case share of
        None \<Rightarrow> Inr dflt
      | Some x \<Rightarrow>
          if fl_truthy x then
            (case py_int (float_mul x 100) of Inl err \<Rightarrow> Inl err | Inr i \<Rightarrow> Inr (str_int i))
          else Inr dflt)"

definition share_range :: "KeywordShareData \<Rightarrow> py_error + string" where
  "share_range r =
     (if low_share r = None \<and> high_share r = None then Inr ''N/A''
      else
        case share_pct (low_share r) ''0'' of
          Inl err \<Rightarrow> Inl err
        | Inr low \<Rightarrow>
            (case share_pct (high_share r) ''?'' of
               Inl err \<Rightarrow> Inl err
             | Inr high \<Rightarrow> Inr (low @ ''-'' @ high @ ''%'')))"

definition rank_str :: "KeywordShareData \<Rightarrow> string" where
  "rank_str r =
     (case rank r of None \<Rightarrow> ''N/A'' | Some k \<Rightarrow> if k = 0 then ''N/A'' else str_int k)"

definition bid_str :: "KeywordShareData \<Rightarrow> string" where
  "bid_str r = fmt2f (current_bid r) @ '' '' @ currency r"

text \<open>
  \<^verbatim>\<open>suggested_bid\<close>: the guard on \<^verbatim>\<open>high_share >= 0.5\<close> comes first, then the three
  comparisons of \<^verbatim>\<open>high_share * 100\<close> with the integers 10, 30 and 50; the products are
  \<^verbatim>\<open>Decimal\<close> products in the default context.
\<close>

definition suggested_bid :: "KeywordShareData \<Rightarrow> py_error + decimal" where
  "suggested_bid r =
     (case high_share r of
        None \<Rightarrow> Inr (current_bid r)
      | Some h \<Rightarrow>
          if fl_le (float_lit (1 / 2)) h then Inr (current_bid r)
          else
            let high_pct = float_mul h 100
            in if fl_le high_pct (Fl 10) then dec_mul (current_bid r) (Dec False 150 (- 2))
               else if fl_le high_pct (Fl 30) then dec_mul (current_bid r) (Dec False 125 (- 2))
               else if fl_le high_pct (Fl 50) then dec_mul (current_bid r) (Dec False 110 (- 2))
               else Inr (current_bid r))"

definition suggested_bid_str :: "KeywordShareData \<Rightarrow> py_error + string" where
  "suggested_bid_str r =
     (case suggested_bid r of
        Inl err \<Rightarrow> Inl err
      | Inr suggested \<Rightarrow>
          (case dec_eq suggested (current_bid r) of
             Inl err \<Rightarrow> Inl err
           | Inr same \<Rightarrow>
               if same then Inr ''-''
               else Inr (fmt2f suggested @ '' '' @ currency r)))"

section \<open>Report rows and the bid lookup\<close>

text \<open>
  The report and its rows are models of the API client library; the source reads the
  fields below and treats every metadata field as possibly missing.
\<close>

record ReportMetadata =
  meta_campaign_id :: "int option"
  meta_campaign_name :: "string option"
  meta_ad_group_id :: "int option"
  meta_ad_group_name :: "string option"
  meta_keyword_id :: "int option"
  meta_keyword :: "string option"
  meta_country_or_region :: "string option"

record ReportRow =
  row_metadata :: ReportMetadata
  low_impression_share :: "pyfloat option"
  high_impression_share :: "pyfloat option"
  row_rank :: "int option"
  row_search_popularity :: "int option"

text \<open>The inner dictionary of \<^verbatim>\<open>keywords_by_id\<close>: the keys \<^verbatim>\<open>"bid"\<close> and \<^verbatim>\<open>"currency"\<close>.\<close>

record KwInfo =
  kw_bid :: "decimal option"
  kw_currency :: "string option"

text \<open>Python's \<^verbatim>\<open>x or default\<close> on an optional integer and an optional string.\<close>

definition or_int :: "int option \<Rightarrow> int \<Rightarrow> int" where
  "or_int v d = (case v of None \<Rightarrow> d | Some i \<Rightarrow> if i = 0 then d else i)"

definition or_str :: "string option \<Rightarrow> string \<Rightarrow> string" where
  "or_str v d = (case v of None \<Rightarrow> d | Some s \<Rightarrow> if s = [] then d else s)"

definition make_record ::
  "(int \<rightharpoonup> KwInfo) \<Rightarrow> ReportRow \<Rightarrow> int \<Rightarrow> string \<Rightarrow> KeywordShareData" where
  "make_record keywords_by_id row kid kw =
     (let meta = row_metadata row;
          kw_info = (case keywords_by_id kid of
                       None \<Rightarrow> \<lparr>kw_bid = None, kw_currency = None\<rparr>
                     | Some info \<Rightarrow> info);
          bid_amount = (case kw_bid kw_info of None \<Rightarrow> Dec False 0 0 | Some b \<Rightarrow> b);
          cur = (case kw_currency kw_info of None \<Rightarrow> ''USD'' | Some c \<Rightarrow> c)
      in \<lparr>campaign_id = or_int (meta_campaign_id meta) 0,
          campaign_name = or_str (meta_campaign_name meta) [],
          ad_group_id = or_int (meta_ad_group_id meta) 0,
          ad_group_name = or_str (meta_ad_group_name meta) [],
          keyword_id = kid,
          keyword = kw,
          country = or_str (meta_country_or_region meta) [],
          current_bid = bid_amount,
          currency = cur,
          low_share = low_impression_share row,
          high_share = high_impression_share row,
          rank = row_rank row,
          search_popularity = row_search_popularity row\<rparr>)"

text \<open>
  The loop of \<^verbatim>\<open>_parse_report_data\<close>: a row whose \<^verbatim>\<open>keyword_id\<close> or \<^verbatim>\<open>keyword\<close> is falsy
  is skipped (\<^verbatim>\<open>continue\<close>), any other row is appended to \<^verbatim>\<open>results\<close>.
\<close>

fun parse_rows ::
  "(int \<rightharpoonup> KwInfo) \<Rightarrow> ReportRow list \<Rightarrow> KeywordShareData list \<Rightarrow> KeywordShareData list" where
  "parse_rows keywords_by_id [] results = results"
| "parse_rows keywords_by_id (row # rows) results =
     (case meta_keyword_id (row_metadata row) of
        None \<Rightarrow> parse_rows keywords_by_id rows results
      | Some kid \<Rightarrow>
          if kid = 0 then parse_rows keywords_by_id rows results
          else (case meta_keyword (row_metadata row) of
                  None \<Rightarrow> parse_rows keywords_by_id rows results
                | Some kw \<Rightarrow>
                    if kw = [] then parse_rows keywords_by_id rows results
                    else parse_rows keywords_by_id rows
                           (results @ [make_record keywords_by_id row kid kw])))"

definition parse_report_data ::
  "ReportRow list \<Rightarrow> (int \<rightharpoonup> KwInfo) \<Rightarrow> KeywordShareData list" where
  "parse_report_data report keywords_by_id = parse_rows keywords_by_id report []"

text \<open>The description of \<^verbatim>\<open>_parse_report_data\<close> that the loop is compared with.\<close>

definition row_kept :: "ReportRow \<Rightarrow> bool" where
  "row_kept row \<longleftrightarrow>
     (case meta_keyword_id (row_metadata row) of None \<Rightarrow> False | Some kid \<Rightarrow> kid \<noteq> 0)
     \<and> (case meta_keyword (row_metadata row) of None \<Rightarrow> False | Some kw \<Rightarrow> kw \<noteq> [])"

definition row_record :: "(int \<rightharpoonup> KwInfo) \<Rightarrow> ReportRow \<Rightarrow> KeywordShareData" where
  "row_record keywords_by_id row =
     make_record keywords_by_id row
       (or_int (meta_keyword_id (row_metadata row)) 0)
       (or_str (meta_keyword (row_metadata row)) [])"

section \<open>The lookback window\<close>

text \<open>
  A \<^verbatim>\<open>date\<close> is its proleptic Gregorian ordinal (1 is 0001-01-01, 3652059 is
  9999-12-31); \<^verbatim>\<open>date.today()\<close> is a parameter. \<^verbatim>\<open>timedelta(days=n)\<close> and date
  subtraction raise \<^verbatim>\<open>OverflowError\<close> outside their ranges.
\<close>

definition timedelta :: "int \<Rightarrow> py_error + int" where
  "timedelta n = (if - 999999999 \<le> n \<and> n \<le> 999999999 then Inr n else Inl OverflowError)"

definition date_sub :: "int \<Rightarrow> int \<Rightarrow> py_error + int" where
  "date_sub d n =
     (let r = d - n in if 1 \<le> r \<and> r \<le> 3652059 then Inr r else Inl OverflowError)"

record lookback =
  lb_days :: int
  lb_warnings :: "string list"
  lb_start_date :: int
  lb_end_date :: int

text \<open>
  The same five lines open \<^verbatim>\<open>analyze_impression_share\<close>, \<^verbatim>\<open>interactive_bid_optimizer\<close>
  and \<^verbatim>\<open>generate_share_report\<close>: clamp with a warning, then the two dates.
\<close>

definition lookback_window :: "int \<Rightarrow> int \<Rightarrow> py_error + lookback" where
  "lookback_window today days0 =
     (let (days, printed) =
            (if 30 < days0 then (30, [''Maximum lookback is 30 days, using 30''])
             else (days0, []))
      in case timedelta 1 of
           Inl err \<Rightarrow> Inl err
         | Inr day \<Rightarrow>
             (case date_sub today day of
                Inl err \<Rightarrow> Inl err
              | Inr end_date \<Rightarrow>
                  (case timedelta (days - 1) of
                     Inl err \<Rightarrow> Inl err
                   | Inr delta \<Rightarrow>
                       (case date_sub end_date delta of
                          Inl err \<Rightarrow> Inl err
                        | Inr start_date \<Rightarrow>
                            Inr \<lparr>lb_days = days, lb_warnings = printed,
                                 lb_start_date = start_date, lb_end_date = end_date\<rparr>))))"

definition analyze_window :: "int \<Rightarrow> int \<Rightarrow> py_error + lookback" where
  "analyze_window today days = lookback_window today days"

definition optimize_window :: "int \<Rightarrow> int \<Rightarrow> py_error + lookback" where
  "optimize_window today days = lookback_window today days"

definition report_window :: "int \<Rightarrow> int \<Rightarrow> py_error + lookback" where
  "report_window today days = lookback_window today days"

section \<open>Filtering and sorting\<close>

text \<open>
  Strings are byte strings here, so \<^verbatim>\<open>str.lower\<close> is modelled on ASCII letters.
\<close>

definition str_lower :: "string \<Rightarrow> string" where
  "str_lower s =
     map (\<lambda>c. if 65 \<le> (of_char c :: nat) \<and> (of_char c :: nat) \<le> 90
              then char_of ((of_char c :: nat) + 32) else c) s"

fun str_contains :: "string \<Rightarrow> string \<Rightarrow> bool" where
  "str_contains p [] = (p = [])"
| "str_contains p (c # s) = (take (length p) (c # s) = p \<or> str_contains p s)"

definition campaign_filter :: "string option \<Rightarrow> KeywordShareData list \<Rightarrow> KeywordShareData list" where
  "campaign_filter campaign data =
     (case campaign of
        None \<Rightarrow> data
      | Some c \<Rightarrow>
          if c = [] then data
          else let pattern = str_lower (filter (\<lambda>ch. ch \<noteq> CHR ''*'') c)
               in filter (\<lambda>d. str_contains pattern (str_lower (campaign_name d))) data)"

text \<open>The test \<^verbatim>\<open>d.high_share is not None and d.high_share < threshold\<close>.\<close>

definition share_below :: "pyfloat \<Rightarrow> KeywordShareData \<Rightarrow> bool" where
  "share_below threshold d =
     (case high_share d of None \<Rightarrow> False | Some h \<Rightarrow> fl_less h threshold)"

definition min_share_filter ::
  "pyfloat option \<Rightarrow> KeywordShareData list \<Rightarrow> KeywordShareData list" where
  "min_share_filter min_share data =
     (case min_share of
        None \<Rightarrow> data
      | Some m \<Rightarrow> let threshold = float_div m 100 in filter (share_below threshold) data)"

subsection \<open>The sort\<close>

text \<open>
  \<^verbatim>\<open>list.sort\<close> compares keys with \<^verbatim>\<open><\<close> only. On a list of fewer than 64 elements
  CPython's sort (through version 3.12) takes the run the list starts with (non-descending,
  or strictly descending and then reversed) and inserts each remaining element by binary
  search; these are the steps below. A longer list is cut into such runs, which are then
  merged: the result is the same stable ascending order whenever \<^verbatim>\<open><\<close> is a total order
  on the keys, that is, whenever no key is NaN.
\<close>

fun count_asc :: "('a \<Rightarrow> 'a \<Rightarrow> bool) \<Rightarrow> 'a \<Rightarrow> 'a list \<Rightarrow> nat" where
  "count_asc lt prev [] = 0"
| "count_asc lt prev (x # xs) = (if lt x prev then 0 else Suc (count_asc lt x xs))"

fun count_desc :: "('a \<Rightarrow> 'a \<Rightarrow> bool) \<Rightarrow> 'a \<Rightarrow> 'a list \<Rightarrow> nat" where
  "count_desc lt prev [] = 0"
| "count_desc lt prev (x # xs) = (if lt x prev then Suc (count_desc lt x xs) else 0)"

text \<open>The length of the run a list starts with, and whether it is descending.\<close>

fun count_run :: "('a \<Rightarrow> 'a \<Rightarrow> bool) \<Rightarrow> 'a list \<Rightarrow> nat \<times> bool" where
  "count_run lt [] = (0, False)"
| "count_run lt [x] = (1, False)"
| "count_run lt (x # y # zs) =
     (if lt y x then (2 + count_desc lt y zs, True) else (2 + count_asc lt y zs, False))"

text \<open>The binary search of \<^verbatim>\<open>binarysort\<close>: where \<open>pivot\<close> goes among \<open>xs ! l, \<dots>, xs ! (r - 1)\<close>.\<close>

function bisect :: "('a \<Rightarrow> 'a \<Rightarrow> bool) \<Rightarrow> 'a \<Rightarrow> 'a list \<Rightarrow> nat \<Rightarrow> nat \<Rightarrow> nat" where
  "bisect lt pivot xs l r =
     (if l < r then
        (if lt pivot (xs ! (l + (r - l) div 2)) then bisect lt pivot xs l (l + (r - l) div 2)
         else bisect lt pivot xs (l + (r - l) div 2 + 1) r)
      else l)"
  by pat_completeness auto

termination
  by (relation "measure (\<lambda>(lt, pivot, xs, l, r). r - l)") auto

declare bisect.simps [simp del]

fun binarysort :: "('a \<Rightarrow> 'a \<Rightarrow> bool) \<Rightarrow> 'a list \<Rightarrow> 'a list \<Rightarrow> 'a list" where
  "binarysort lt pre [] = pre"
| "binarysort lt pre (pivot # rest) =
     (let l = bisect lt pivot pre 0 (length pre)
      in binarysort lt (take l pre @ pivot # drop l pre) rest)"

definition list_sort :: "('a \<Rightarrow> 'k) \<Rightarrow> ('k \<Rightarrow> 'k \<Rightarrow> bool) \<Rightarrow> 'a list \<Rightarrow> 'a list" where
  "list_sort key lt xs =
     (let less = (\<lambda>x y. lt (key x) (key y));
          (n, descending) = count_run less xs;
          run = (if descending then rev (take n xs) else take n xs)
      in binarysort less run (drop n xs))"

text \<open>The sort key \<^verbatim>\<open>x.high_share or 0\<close>.\<close>

definition share_key :: "KeywordShareData \<Rightarrow> pyfloat" where
  "share_key d = (case high_share d of None \<Rightarrow> Fl 0 | Some h \<Rightarrow> if fl_truthy h then h else Fl 0)"

definition sort_by_share :: "KeywordShareData list \<Rightarrow> KeywordShareData list" where
  "sort_by_share data = list_sort share_key fl_less data"

text \<open>
  What \<^verbatim>\<open>analyze\<close> shows, from the parsed records on: \<^verbatim>\<open>None\<close> is the early return with
  the warning that no keyword matches.
\<close>

definition analyze_filtered ::
  "string option \<Rightarrow> pyfloat option \<Rightarrow> KeywordShareData list \<Rightarrow> KeywordShareData list" where
  "analyze_filtered campaign min_share parsed =
     min_share_filter min_share (campaign_filter campaign parsed)"

definition analyze_rows ::
  "string option \<Rightarrow> pyfloat option \<Rightarrow> KeywordShareData list \<Rightarrow> KeywordShareData list option" where
  "analyze_rows campaign min_share parsed =
     (let data = analyze_filtered campaign min_share parsed
      in if data = [] then None else Some (sort_by_share data))"

text \<open>
  The candidates of \<^verbatim>\<open>optimize\<close>, from the parsed records on. The second list
  comprehension evaluates \<^verbatim>\<open>d.suggested_bid > d.current_bid\<close>, which can raise.
\<close>

fun filter_err :: "('a \<Rightarrow> py_error + bool) \<Rightarrow> 'a list \<Rightarrow> py_error + 'a list" where
  "filter_err p [] = Inr []"
| "filter_err p (x # xs) =
     (case p x of
        Inl err \<Rightarrow> Inl err
      | Inr keep \<Rightarrow>
          (case filter_err p xs of
             Inl err \<Rightarrow> Inl err
           | Inr ys \<Rightarrow> Inr (if keep then x # ys else ys)))"

definition bid_raised :: "KeywordShareData \<Rightarrow> py_error + bool" where
  "bid_raised d =
     (case suggested_bid d of
        Inl err \<Rightarrow> Inl err
      | Inr suggested \<Rightarrow> dec_gt suggested (current_bid d))"

definition optimize_filtered ::
  "pyfloat \<Rightarrow> KeywordShareData list \<Rightarrow> py_error + KeywordShareData list" where
  "optimize_filtered max_share parsed =
     (let threshold = float_div max_share 100
      in filter_err bid_raised (filter (share_below threshold) parsed))"

definition optimize_rows ::
  "pyfloat \<Rightarrow> KeywordShareData list \<Rightarrow> py_error + KeywordShareData list option" where
  "optimize_rows max_share parsed =
     (case optimize_filtered max_share parsed of
        Inl err \<Rightarrow> Inl err
      | Inr data \<Rightarrow> Inr (if data = [] then None else Some (sort_by_share data)))"

section \<open>The report command\<close>














section \<open>Sample inputs\<close>

text \<open>A sample record and a sample report row, used to run the definitions on concrete inputs.\<close>

definition sample :: "decimal \<Rightarrow> pyfloat option \<Rightarrow> pyfloat option \<Rightarrow> KeywordShareData" where
  "sample bid lo hi =
     \<lparr>campaign_id = 1, campaign_name = ''Brand'', ad_group_id = 2,
      ad_group_name = ''Exact'', keyword_id = 3, keyword = ''chess'', country = ''US'',
      current_bid = bid, currency = ''USD'', low_share = lo, high_share = hi,
      rank = Some 1, search_popularity = None\<rparr>"

definition sample_row :: "int option \<Rightarrow> string option \<Rightarrow> pyfloat option \<Rightarrow> ReportRow" where
  "sample_row kid kw hi =
     \<lparr>row_metadata =
        \<lparr>meta_campaign_id = None, meta_campaign_name = Some ''Brand'',
         meta_ad_group_id = Some 2, meta_ad_group_name = None,
         meta_keyword_id = kid, meta_keyword = kw,
         meta_country_or_region = None\<rparr>,
      low_impression_share = None, high_impression_share = hi,
      row_rank = Some 1, row_search_popularity = None\<rparr>"

section \<open>Facts about rounding\<close>

subsection \<open>The binary exponent\<close>

lemma floorlog_powi_bounds:
  assumes "0 < n"
  shows "(2::rat) powi (int (floorlog 2 n) - 1) \<le> of_nat n"
    and "of_nat n < (2::rat) powi int (floorlog 2 n)"
proof -
  have pos: "0 < floorlog 2 n"
    using assms by (simp add: floorlog_eq_zero_iff Suc_le_eq flip: neq0_conv)
  have b: "2 ^ (floorlog 2 n - 1) \<le> n" "n < 2 ^ floorlog 2 n"
    using floorlog_bounds [of n 2] assms by simp_all
  have "(2::rat) powi (int (floorlog 2 n) - 1) = 2 powi int (floorlog 2 n - 1)"
    using pos by (simp add: of_nat_diff)
  also have "\<dots> = of_nat (2 ^ (floorlog 2 n - 1))"
    by simp
  also have "\<dots> \<le> of_nat n"
    using b(1) by (simp only: of_nat_le_iff)
  finally show "(2::rat) powi (int (floorlog 2 n) - 1) \<le> of_nat n" .
  have "(of_nat n :: rat) < of_nat (2 ^ floorlog 2 n)"
    using b(2) by (simp only: of_nat_less_iff)
  then show "of_nat n < (2::rat) powi int (floorlog 2 n)"
    by simp
qed

lemma expo_bounds:
  assumes "0 < x"
  shows "2 powi expo x \<le> x" and "x < 2 powi (expo x + 1)"
proof -
  obtain a b where ab: "quotient_of x = (a, b)"
    by (cases "quotient_of x")
  have bpos: "0 < b"
    using ab quotient_of_denom_pos by blast
  have xdiv: "x = of_int a / of_int b"
    using ab by (rule quotient_of_div)
  have apos: "0 < a"
    using assms bpos xdiv by (simp add: zero_less_divide_iff)
  define A :: rat where "A = of_nat (nat a)"
  define B :: rat where "B = of_nat (nat b)"
  define la where "la = int (floorlog 2 (nat a))"
  define lb where "lb = int (floorlog 2 (nat b))"
  have xAB: "x = A / B"
    using xdiv apos bpos by (simp add: A_def B_def)
  have A1: "2 powi (la - 1) \<le> A" and A2: "A < 2 powi la"
    using floorlog_powi_bounds [of "nat a"] apos by (simp_all add: A_def la_def)
  have B1: "2 powi (lb - 1) \<le> B" and B2: "B < 2 powi lb"
    using floorlog_powi_bounds [of "nat b"] bpos by (simp_all add: B_def lb_def)
  have Apos: "0 < A" and Bpos: "0 < B"
    using apos bpos by (simp_all add: A_def B_def)
  have up: "x < 2 powi (la - lb + 1)"
  proof -
    have "A / B < 2 powi la / 2 powi (lb - 1)"
      using Apos A2 B1 by (intro frac_less) simp_all
    also have "\<dots> = 2 powi (la - (lb - 1))"
      by (simp add: power_int_diff)
    finally show ?thesis by (simp add: xAB algebra_simps)
  qed
  have lo: "2 powi (la - lb - 1) < x"
  proof -
    have "2 powi (la - 1) / 2 powi lb < A / B"
      using A1 B2 Bpos by (intro frac_less2) simp_all
    moreover have "(2::rat) powi (la - 1) / 2 powi lb = 2 powi (la - 1 - lb)"
      by (simp add: power_int_diff)
    ultimately show ?thesis by (simp add: xAB algebra_simps)
  qed
  have e: "expo x = (if 2 powi (la - lb) \<le> x then la - lb else la - lb - 1)"
    by (simp add: expo_def ab la_def lb_def Let_def)
  show "2 powi expo x \<le> x"
    using lo by (simp add: e)
  show "x < 2 powi (expo x + 1)"
    using up by (auto simp: e not_le)
qed

lemma expo_unique:
  assumes "2 powi e \<le> x" and "x < 2 powi (e + 1)"
  shows "expo x = e"
proof -
  have xpos: "0 < x"
    using assms(1) by (rule less_le_trans [rotated]) simp
  note b = expo_bounds [OF xpos]
  have "(2::rat) powi e < 2 powi (expo x + 1)"
    using assms(1) b(2) by (rule le_less_trans)
  then have 1: "e < expo x + 1"
    by (metis not_less power_int_increasing one_le_numeral)
  have "(2::rat) powi expo x < 2 powi (e + 1)"
    using b(1) assms(2) by (rule le_less_trans)
  then have 2: "expo x < e + 1"
    by (metis not_less power_int_increasing one_le_numeral)
  from 1 2 show ?thesis by simp
qed


subsection \<open>Rounding to an integer\<close>

lemma rhe_cases:
  "round_half_even x = \<lfloor>x\<rfloor> \<or> round_half_even x = \<lfloor>x\<rfloor> + 1"
  by (simp add: round_half_even_def Let_def)

lemma rhe_of_int [simp]: "round_half_even (of_int n) = n"
  by (simp add: round_half_even_def)

lemma rhe_unique:
  assumes "of_int n - 1 / 2 < x" and "x < of_int n + 1 / 2"
  shows "round_half_even x = n"
proof (cases "of_int n \<le> x")
  case True
  then have "\<lfloor>x\<rfloor> = n"
    using assms(2) by (intro floor_unique) simp_all
  then show ?thesis
    using assms(2) by (simp add: round_half_even_def)
next
  case False
  then have "\<lfloor>x\<rfloor> = n - 1"
    using assms(1) by (intro floor_unique) simp_all
  then show ?thesis
    using assms(1) by (simp add: round_half_even_def)
qed

lemma rhe_mono:
  assumes "x \<le> y"
  shows "round_half_even x \<le> round_half_even y"
proof (cases "\<lfloor>x\<rfloor> = \<lfloor>y\<rfloor>")
  case True
  then show ?thesis
    using assms by (auto simp: round_half_even_def Let_def)
next
  case False
  then have "\<lfloor>x\<rfloor> + 1 \<le> \<lfloor>y\<rfloor>"
    using floor_mono [OF assms] by simp
  moreover have "round_half_even x \<le> \<lfloor>x\<rfloor> + 1"
    using rhe_cases [of x] by auto
  moreover have "\<lfloor>y\<rfloor> \<le> round_half_even y"
    using rhe_cases [of y] by auto
  ultimately show ?thesis by simp
qed

lemma rhe_le_int: "x \<le> of_int n \<Longrightarrow> round_half_even x \<le> n"
  using rhe_mono [of x "of_int n"] by simp

lemma rhe_ge_int: "of_int n \<le> x \<Longrightarrow> n \<le> round_half_even x"
  using rhe_mono [of "of_int n" x] by simp

lemma rhe_minus: "round_half_even (- x) = - round_half_even x"
proof (cases "of_int \<lfloor>x\<rfloor> = x")
  case True
  then obtain n where "x = of_int n" by metis
  then show ?thesis by (simp flip: of_int_minus)
next
  case False
  then have lt: "of_int \<lfloor>x\<rfloor> < x"
    by (simp add: less_le)
  have "\<lfloor>- x\<rfloor> = - \<lfloor>x\<rfloor> - 1"
    using lt by (intro floor_unique) (simp_all, linarith+)
  then show ?thesis
    by (auto simp: round_half_even_def Let_def)
qed


subsection \<open>Rounding to binary64\<close>

lemma expo_mono:
  assumes "0 < x" and "x \<le> y"
  shows "expo x \<le> expo y"
proof -
  have ypos: "0 < y" using assms by simp
  have "(2::rat) powi expo x \<le> x"
    using expo_bounds(1) [OF assms(1)] .
  also have "x \<le> y" by fact
  also have "y < 2 powi (expo y + 1)"
    using expo_bounds(2) [OF ypos] .
  finally have "(2::rat) powi expo x < 2 powi (expo y + 1)" .
  then have "expo x < expo y + 1"
    by (metis not_less power_int_increasing one_le_numeral)
  then show ?thesis by simp
qed

lemma quantum_pos: "0 < x \<Longrightarrow> quantum x = max (expo x - 52) (- 1074)"
  by (simp add: quantum_def)

lemma quantum_minus [simp]: "quantum (- x) = quantum x"
  by (simp add: quantum_def)

lemma rnd_minus: "rnd (- x) = - rnd x"
  by (simp add: rnd_def rhe_minus)

lemma rnd_pos:
  "0 < x \<Longrightarrow> rnd x = of_int (round_half_even (x / 2 powi quantum x)) * 2 powi quantum x"
  by (simp add: rnd_def)

lemma rnd_nonneg:
  assumes "0 \<le> x"
  shows "0 \<le> rnd x"
proof (cases "x = 0")
  case True
  then show ?thesis by (simp add: rnd_def)
next
  case False
  then have "0 < x" using assms by simp
  have "of_int 0 \<le> x / 2 powi quantum x"
    using assms by simp
  then have "0 \<le> round_half_even (x / 2 powi quantum x)"
    by (rule rhe_ge_int)
  then show ?thesis
    using \<open>0 < x\<close> by (simp add: rnd_pos)
qed

lemma powi_of_int: "0 \<le> k \<Longrightarrow> (2::rat) powi k = of_int (2 ^ nat k)"
  by (simp add: power_int_nonneg_exp)

lemma rnd_upper:
  assumes "0 < x"
  shows "rnd x \<le> 2 powi (expo x + 1)"
proof -
  define q where "q = quantum x"
  have q2: "0 < (2::rat) powi q" by simp
  have xlt: "x < 2 powi (expo x + 1)"
    using expo_bounds(2) [OF assms] .
  show ?thesis
  proof (cases "q \<le> expo x + 1")
    case True
    have "x / 2 powi q \<le> 2 powi (expo x + 1) / 2 powi q"
      using xlt q2 by (simp add: divide_right_mono)
    also have "\<dots> = 2 powi (expo x + 1 - q)"
      by (simp add: power_int_diff)
    also have "\<dots> = of_int (2 ^ nat (expo x + 1 - q))"
      using True by (simp add: powi_of_int)
    finally have "round_half_even (x / 2 powi q) \<le> 2 ^ nat (expo x + 1 - q)"
      by (rule rhe_le_int)
    then have "(of_int (round_half_even (x / 2 powi q)) :: rat) \<le> of_int (2 ^ nat (expo x + 1 - q))"
      by (simp only: of_int_le_iff)
    then have "of_int (round_half_even (x / 2 powi q)) * 2 powi q
                 \<le> of_int (2 ^ nat (expo x + 1 - q)) * (2::rat) powi q"
      using q2 by (simp add: mult_right_mono)
    also have "of_int (2 ^ nat (expo x + 1 - q)) * (2::rat) powi q = 2 powi (expo x + 1 - q) * 2 powi q"
      using True by (simp add: powi_of_int)
    also have "\<dots> = 2 powi (expo x + 1)"
      by (simp flip: power_int_add)
    finally show ?thesis
      using assms by (simp add: rnd_pos q_def)
  next
    case False
    then have "expo x + 1 \<le> q - 1" by simp
    then have "(2::rat) powi (expo x + 1) \<le> 2 powi (q - 1)"
      by (intro power_int_increasing) simp_all
    then have "x < 2 powi (q - 1)"
      using xlt by simp
    then have "x / 2 powi q < 2 powi (q - 1) / 2 powi q"
      using q2 by (simp add: divide_strict_right_mono)
    also have "(2::rat) powi (q - 1) / 2 powi q = 1 / 2"
      by (simp add: power_int_diff)
    finally have "x / 2 powi q < of_int 0 + 1 / 2" by simp
    moreover have "of_int 0 - 1 / 2 < x / 2 powi q"
      using assms by (simp add: less_le_trans [of _ 0])
    ultimately have "round_half_even (x / 2 powi q) = 0"
      by (intro rhe_unique)
    then show ?thesis
      using assms by (simp add: rnd_pos q_def)
  qed
qed

lemma rnd_lower:
  assumes "0 < x" and "- 1022 \<le> expo x"
  shows "2 powi expo x \<le> rnd x"
proof -
  define p :: rat where "p = 2 powi (expo x - 52)"
  define m where "m = round_half_even (x / p)"
  have q: "quantum x = expo x - 52"
    using assms by (simp add: quantum_pos)
  have p0: "0 < p" by (simp add: p_def)
  have pe: "of_int (2 ^ 52) * p = 2 powi expo x"
    by (simp add: p_def power_int_diff)
  have "of_int (2 ^ 52) * p / p \<le> x / p"
    using expo_bounds(1) [OF assms(1)] p0 unfolding pe by (simp only: divide_right_mono less_imp_le)
  then have "of_int (2 ^ 52) \<le> x / p"
    using p0 by simp
  then have "2 ^ 52 \<le> m"
    unfolding m_def by (rule rhe_ge_int)
  then have "(of_int (2 ^ 52) :: rat) \<le> of_int m"
    by (simp only: of_int_le_iff)
  then have "of_int (2 ^ 52) * p \<le> of_int m * p"
    using p0 by (simp only: mult_right_mono less_imp_le)
  then have "2 powi expo x \<le> of_int m * p"
    unfolding pe .
  moreover have "rnd x = of_int m * p"
    using assms by (simp add: rnd_pos q m_def p_def)
  ultimately show ?thesis by simp
qed

lemma rnd_mono_pos:
  assumes "0 < x" and "x \<le> y"
  shows "rnd x \<le> rnd y"
proof -
  have ypos: "0 < y" using assms by simp
  have qle: "quantum x \<le> quantum y"
    using expo_mono [OF assms] assms ypos by (simp add: quantum_pos)
  show ?thesis
  proof (cases "quantum x = quantum y")
    case True
    have "x / 2 powi quantum y \<le> y / 2 powi quantum y"
      using assms(2) by (simp add: divide_right_mono)
    then have "round_half_even (x / 2 powi quantum y) \<le> round_half_even (y / 2 powi quantum y)"
      by (rule rhe_mono)
    then have "(of_int (round_half_even (x / 2 powi quantum y)) :: rat)
                 \<le> of_int (round_half_even (y / 2 powi quantum y))"
      by (simp only: of_int_le_iff)
    then show ?thesis
      using assms ypos True by (simp add: rnd_pos mult_right_mono)
  next
    case False
    then have lt: "quantum x < quantum y" using qle by simp
    then have ey: "- 1022 \<le> expo y" and exy: "expo x + 1 \<le> expo y"
      using assms ypos by (auto simp: quantum_pos max_def split: if_splits)
    have "rnd x \<le> 2 powi (expo x + 1)"
      using rnd_upper [OF assms(1)] .
    also have "(2::rat) powi (expo x + 1) \<le> 2 powi expo y"
      using exy by (intro power_int_increasing) simp_all
    also have "\<dots> \<le> rnd y"
      using rnd_lower [OF ypos ey] .
    finally show ?thesis .
  qed
qed

lemma rnd_mono:
  assumes "x \<le> y"
  shows "rnd x \<le> rnd y"
proof -
  consider "0 < x" | "x \<le> 0" "0 \<le> y" | "y < 0" by linarith
  then show ?thesis
  proof cases
    case 1
    then show ?thesis using assms by (rule rnd_mono_pos)
  next
    case 2
    have "rnd x = - rnd (- x)" by (simp add: rnd_minus)
    moreover have "0 \<le> rnd (- x)" using 2 by (intro rnd_nonneg) simp
    moreover have "0 \<le> rnd y" using 2 by (intro rnd_nonneg)
    ultimately show ?thesis by simp
  next
    case 3
    then have "rnd (- y) \<le> rnd (- x)"
      using assms by (intro rnd_mono_pos) simp_all
    then show ?thesis by (simp add: rnd_minus)
  qed
qed

text \<open>Evaluating \<open>rnd\<close> at a value whose binade and nearest integer multiple are given.\<close>

lemma rnd_eval:
  assumes "2 powi e \<le> x" and "x < 2 powi (e + 1)" and "- 1022 \<le> e"
    and "of_int n - 1 / 2 < x / 2 powi (e - 52)" and "x / 2 powi (e - 52) < of_int n + 1 / 2"
  shows "rnd x = of_int n * 2 powi (e - 52)"
proof -
  have xpos: "0 < x"
    using assms(1) by (rule less_le_trans [rotated]) simp
  have "expo x = e"
    using assms(1,2) by (rule expo_unique)
  then have q: "quantum x = e - 52"
    using xpos assms(3) by (simp add: quantum_pos)
  have "round_half_even (x / 2 powi (e - 52)) = n"
    using assms(4,5) by (rule rhe_unique)
  then show ?thesis
    using xpos by (simp add: rnd_pos q)
qed

lemma rnd_exact:
  assumes "2 powi e \<le> x" and "x < 2 powi (e + 1)" and "- 1022 \<le> e"
    and "x / 2 powi (e - 52) = of_int n"
  shows "rnd x = x"
proof -
  have "rnd x = of_int n * 2 powi (e - 52)"
    using assms(1,2,3) by (rule rnd_eval) (simp_all add: assms(4))
  also have "\<dots> = x"
    using assms(4) by (simp add: field_simps)
  finally show ?thesis .
qed

text \<open>A binary64 value in the binade of \<open>e\<close> is an integer multiple of \<open>2 powi (e - 52)\<close>.\<close>

lemma is_double_grid:
  assumes "is_double x" and "2 powi e \<le> x" and "x < 2 powi (e + 1)" and "- 1022 \<le> e"
  shows "\<exists>k. x = of_int k * 2 powi (e - 52)"
proof -
  have xpos: "0 < x"
    using assms(2) by (rule less_le_trans [rotated]) simp
  have "expo x = e"
    using assms(2,3) by (rule expo_unique)
  then have q: "quantum x = e - 52"
    using xpos assms(4) by (simp add: quantum_pos)
  have "rnd x = x" using assms(1) by (simp add: is_double_def)
  then have "x = of_int (round_half_even (x / 2 powi (e - 52))) * 2 powi (e - 52)"
    using xpos by (simp add: rnd_pos q)
  then show ?thesis ..
qed

lemma is_double_gap:
  assumes "is_double x" and "of_int k0 * 2 powi (e - 52) < x" and "- 1022 \<le> e"
    and "(2::rat) powi e \<le> of_int k0 * 2 powi (e - 52)"
    and "of_int k0 * 2 powi (e - 52) < (2::rat) powi (e + 1)"
  shows "of_int (k0 + 1) * 2 powi (e - 52) \<le> x"
proof -
  define p :: rat where "p = 2 powi (e - 52)"
  have p0: "0 < p" by (simp add: p_def)
  have top: "(2::rat) powi (e + 1) = of_int (2 ^ 53) * p"
    by (simp add: p_def power_int_diff power_int_add)
  show ?thesis
  proof (cases "x < 2 powi (e + 1)")
    case True
    have "(2::rat) powi e \<le> x" using assms(2,4) by simp
    then obtain k where k: "x = of_int k * p"
      using is_double_grid [OF assms(1) _ True assms(3)] unfolding p_def by blast
    have "of_int k0 * p < of_int k * p"
      using assms(2) unfolding k p_def .
    then have "(of_int k0 :: rat) < of_int k"
      using p0 by (simp only: mult_less_cancel_right_pos)
    then have "k0 + 1 \<le> k" by simp
    then have "(of_int (k0 + 1) :: rat) \<le> of_int k" by (simp only: of_int_le_iff)
    then have "of_int (k0 + 1) * p \<le> of_int k * p"
      using p0 by (simp only: mult_right_mono less_imp_le)
    then show ?thesis
      unfolding k p_def .
  next
    case False
    then have x: "of_int (2 ^ 53) * p \<le> x" unfolding top by simp
    have "of_int k0 * p < of_int (2 ^ 53) * p"
      using assms(5) unfolding top p_def .
    then have "(of_int k0 :: rat) < of_int (2 ^ 53)"
      using p0 by (simp only: mult_less_cancel_right_pos)
    then have "k0 < 2 ^ 53" by (simp only: of_int_less_iff)
    then have "k0 + 1 \<le> 2 ^ 53" by simp
    then have "(of_int (k0 + 1) :: rat) \<le> of_int (2 ^ 53)" by (simp only: of_int_le_iff)
    then have "of_int (k0 + 1) * p \<le> of_int (2 ^ 53) * p"
      using p0 by (simp only: mult_right_mono less_imp_le)
    then have "of_int (k0 + 1) * p \<le> x"
      using x by (rule order_trans)
    then show ?thesis unfolding p_def .
  qed
qed


subsection \<open>The literals of the program\<close>

lemma rnd_tenth: "rnd (1 / 10) = 7205759403792794 * 2 powi (- 56)"
  using rnd_eval [of "- 4" "1 / 10" 7205759403792794] by (simp add: power_int_minus)

lemma rnd_three_tenths: "rnd (3 / 10) = 5404319552844595 * 2 powi (- 54)"
  using rnd_eval [of "- 2" "3 / 10" 5404319552844595] by (simp add: power_int_minus)

lemma rnd_half: "rnd (1 / 2) = 1 / 2"
  using rnd_exact [of "- 1" "1 / 2" "2 ^ 52"] by (simp add: power_int_minus)

lemma rnd_tenth_100: "rnd (7205759403792794 * 2 powi (- 56) * 100) = 10"
  using rnd_eval [of 3 "7205759403792794 * 2 powi (- 56) * 100" 5629499534213120]
  by (simp add: power_int_minus)

lemma rnd_tenth_next_100: "10 < rnd (7205759403792795 * 2 powi (- 56) * 100)"
  using rnd_eval [of 3 "7205759403792795 * 2 powi (- 56) * 100" 5629499534213121]
  by (simp add: power_int_minus)

lemma rnd_three_tenths_100: "rnd (5404319552844595 * 2 powi (- 54) * 100) = 30"
  using rnd_eval [of 4 "5404319552844595 * 2 powi (- 54) * 100" 8444249301319680]
  by (simp add: power_int_minus)

lemma rnd_three_tenths_next_100: "30 < rnd (5404319552844596 * 2 powi (- 54) * 100)"
  using rnd_eval [of 4 "5404319552844596 * 2 powi (- 54) * 100" 8444249301319681]
  by (simp add: power_int_minus)

lemma rnd_50: "rnd 50 = 50"
  using rnd_exact [of 5 50 "50 * 2 ^ 47"] by (simp add: power_int_minus)

lemma rnd_30_div_100: "rnd (30 / 100) = 5404319552844595 * 2 powi (- 54)"
  using rnd_three_tenths by simp

lemma rnd_twentieth: "rnd (1 / 20) = 7205759403792794 * 2 powi (- 57)"
  using rnd_eval [of "- 5" "1 / 20" 7205759403792794] by (simp add: power_int_minus)

lemma rnd_twentieth_100: "rnd (7205759403792794 * 2 powi (- 57) * 100) = 5"
  using rnd_eval [of 2 "7205759403792794 * 2 powi (- 57) * 100" 5629499534213120]
  by (simp add: power_int_minus)

lemma rnd_3_25: "rnd (3 / 25) = 8646911284551352 * 2 powi (- 56)"
  using rnd_eval [of "- 4" "3 / 25" 8646911284551352] by (simp add: power_int_minus)

lemma rnd_3_25_100: "rnd (8646911284551352 * 2 powi (- 56) * 100) = 12"
  using rnd_eval [of 3 "8646911284551352 * 2 powi (- 56) * 100" 6755399441055744]
  by (simp add: power_int_minus)

lemma is_double_gap_tenth:
  assumes "is_double h" and "7205759403792794 * 2 powi (- 56) < h"
  shows "7205759403792795 * 2 powi (- 56) \<le> h"
  using is_double_gap [of h 7205759403792794 "- 4"] assms by (simp add: power_int_minus)

lemma is_double_gap_three_tenths:
  assumes "is_double h" and "5404319552844595 * 2 powi (- 54) < h"
  shows "5404319552844596 * 2 powi (- 54) \<le> h"
  using is_double_gap [of h 5404319552844595 "- 2"] assms by (simp add: power_int_minus)

subsection \<open>Float operations on the literals\<close>

text \<open>
  The float literals of the source, as the rationals they denote: \<^verbatim>\<open>0.1\<close> is
  \<open>3602879701896397 / 2 ^ 55\<close>, \<^verbatim>\<open>0.3\<close> is \<open>5404319552844595 / 2 ^ 54\<close>, and so on.
\<close>

lemma fl_round_eq:
  "rnd x = r \<Longrightarrow> - (2 ^ 1024) < r \<Longrightarrow> r < 2 ^ 1024 \<Longrightarrow> fl_round x = Fl r"
  by (simp add: fl_round_def Let_def)

lemma rnd_two_fifths: "rnd (2 / 5) = 7205759403792794 * 2 powi (- 54)"
  using rnd_eval [of "- 2" "2 / 5" 7205759403792794] by (simp add: power_int_minus)

lemma rnd_two_fifths_100: "rnd (7205759403792794 * 2 powi (- 54) * 100) = 40"
  using rnd_eval [of 5 "7205759403792794 * 2 powi (- 54) * 100" 5629499534213120]
  by (simp add: power_int_minus)

lemma float_lit_half: "float_lit (1 / 2) = Fl (1 / 2)"
  by (simp add: float_lit_def fl_round_def rnd_half Let_def)

lemma float_lit_tenth: "float_lit (1 / 10) = Fl (3602879701896397 / 36028797018963968)"
  using rnd_tenth by (simp add: float_lit_def fl_round_def Let_def)

lemma float_lit_three_tenths: "float_lit (3 / 10) = Fl (5404319552844595 / 18014398509481984)"
  using rnd_three_tenths by (simp add: float_lit_def fl_round_def Let_def)

lemma float_lit_two_fifths: "float_lit (2 / 5) = Fl (3602879701896397 / 9007199254740992)"
  using rnd_two_fifths by (simp add: float_lit_def fl_round_def Let_def)

lemma float_lit_twentieth: "float_lit (1 / 20) = Fl (3602879701896397 / 72057594037927936)"
  using rnd_twentieth by (simp add: float_lit_def fl_round_def Let_def)

lemma float_lit_3_25: "float_lit (3 / 25) = Fl (1080863910568919 / 9007199254740992)"
  using rnd_3_25 by (simp add: float_lit_def fl_round_def Let_def)

lemma is_double_tenth: "is_double (3602879701896397 / 36028797018963968)"
  using rnd_exact [of "- 4" "7205759403792794 * 2 powi (- 56)" 7205759403792794]
  by (simp add: is_double_def power_int_minus)

lemma is_double_three_tenths: "is_double (5404319552844595 / 18014398509481984)"
  using rnd_exact [of "- 2" "5404319552844595 * 2 powi (- 54)" 5404319552844595]
  by (simp add: is_double_def power_int_minus)

lemma is_double_two_fifths: "is_double (3602879701896397 / 9007199254740992)"
  using rnd_exact [of "- 2" "7205759403792794 * 2 powi (- 54)" 7205759403792794]
  by (simp add: is_double_def power_int_minus)

lemma float_mul_tenth_100: "float_mul (Fl (3602879701896397 / 36028797018963968)) 100 = Fl 10"
  using rnd_tenth_100 by (simp add: float_mul_def fl_round_def Let_def)

lemma float_mul_three_tenths_100:
  "float_mul (Fl (5404319552844595 / 18014398509481984)) 100 = Fl 30"
  using rnd_three_tenths_100 by (simp add: float_mul_def fl_round_def Let_def)

lemma float_mul_two_fifths_100: "float_mul (Fl (3602879701896397 / 9007199254740992)) 100 = Fl 40"
  using rnd_two_fifths_100 by (simp add: float_mul_def fl_round_def Let_def)

lemma float_mul_twentieth_100: "float_mul (Fl (3602879701896397 / 72057594037927936)) 100 = Fl 5"
  using rnd_twentieth_100 by (simp add: float_mul_def fl_round_def Let_def)

lemma float_mul_3_25_100: "float_mul (Fl (1080863910568919 / 9007199254740992)) 100 = Fl 12"
  using rnd_3_25_100 by (simp add: float_mul_def fl_round_def Let_def)

lemma float_mul_zero_100: "float_mul (Fl 0) 100 = Fl 0"
  by (simp add: float_mul_def fl_round_def rnd_def Let_def)

lemma float_div_30_100: "float_div (Fl 30) 100 = float_lit (3 / 10)"
  by (simp add: float_div_def float_lit_def)

subsection \<open>The thresholds of the bid suggestion\<close>

lemma fl_le_fl_round:
  "rnd x \<le> b \<Longrightarrow> b < 2 ^ 1024 \<Longrightarrow> fl_le (fl_round x) (Fl b)"
  by (simp add: fl_round_def Let_def)

lemma not_fl_le_fl_round:
  "b < rnd x \<Longrightarrow> - (2 ^ 1024) \<le> b \<Longrightarrow> \<not> fl_le (fl_round x) (Fl b)"
  by (simp add: fl_round_def Let_def)

lemma tier_low:
  assumes "fl_le h (float_lit (1 / 10))"
  shows "\<not> fl_le (float_lit (1 / 2)) h \<and> fl_le (float_mul h 100) (Fl 10)"
proof (cases h)
  case (Fl q)
  have q: "q \<le> 7205759403792794 * 2 powi (- 56)"
    using assms by (simp add: Fl float_lit_tenth)
  then have "q < 1 / 2"
    by (simp add: power_int_minus)
  moreover have "rnd (q * 100) \<le> 10"
    using rnd_mono [of "q * 100" "7205759403792794 * 2 powi (- 56) * 100"] q
    by (simp only: rnd_tenth_100 mult_le_cancel_right) simp
  ultimately show ?thesis
    by (simp add: Fl float_lit_half float_mul_def fl_le_fl_round)
next
  case PInf
  then show ?thesis using assms by (simp add: float_lit_tenth)
next
  case NInf
  then show ?thesis by (simp add: float_lit_half float_mul_def)
next
  case FNaN
  then show ?thesis using assms by simp
qed

lemma tier_mid:
  assumes "is_float h" and "fl_less (float_lit (1 / 10)) h" and "fl_le h (float_lit (3 / 10))"
  shows "\<not> fl_le (float_lit (1 / 2)) h \<and> \<not> fl_le (float_mul h 100) (Fl 10)
         \<and> fl_le (float_mul h 100) (Fl 30)"
proof (cases h)
  case (Fl q)
  have d: "is_double q" using assms(1) by (simp add: Fl is_float_def)
  have lo: "7205759403792794 * 2 powi (- 56) < q"
    using assms(2) by (simp add: Fl float_lit_tenth)
  have hi: "q \<le> 5404319552844595 * 2 powi (- 54)"
    using assms(3) by (simp add: Fl float_lit_three_tenths)
  have "7205759403792795 * 2 powi (- 56) \<le> q"
    using d lo by (rule is_double_gap_tenth)
  then have "rnd (7205759403792795 * 2 powi (- 56) * 100) \<le> rnd (q * 100)"
    by (intro rnd_mono) simp
  then have a: "10 < rnd (q * 100)"
    using rnd_tenth_next_100 by simp
  have "rnd (q * 100) \<le> rnd (5404319552844595 * 2 powi (- 54) * 100)"
    using hi by (intro rnd_mono) simp
  then have b: "rnd (q * 100) \<le> 30"
    by (simp only: rnd_three_tenths_100)
  have "q < 1 / 2"
    using hi by (simp add: power_int_minus)
  then show ?thesis
    using a b by (simp add: Fl float_lit_half float_mul_def fl_le_fl_round not_fl_le_fl_round)
next
  case PInf
  then show ?thesis using assms by (simp add: float_lit_three_tenths)
next
  case NInf
  then show ?thesis using assms by (simp add: float_lit_tenth)
next
  case FNaN
  then show ?thesis using assms by simp
qed

lemma tier_high:
  assumes "is_float h" and "fl_less (float_lit (3 / 10)) h" and "fl_less h (float_lit (1 / 2))"
  shows "\<not> fl_le (float_lit (1 / 2)) h \<and> \<not> fl_le (float_mul h 100) (Fl 10)
         \<and> \<not> fl_le (float_mul h 100) (Fl 30) \<and> fl_le (float_mul h 100) (Fl 50)"
proof (cases h)
  case (Fl q)
  have d: "is_double q" using assms(1) by (simp add: Fl is_float_def)
  have lo: "5404319552844595 * 2 powi (- 54) < q"
    using assms(2) by (simp add: Fl float_lit_three_tenths)
  have hi: "q < 1 / 2"
    using assms(3) by (simp add: Fl float_lit_half)
  have "5404319552844596 * 2 powi (- 54) \<le> q"
    using d lo by (rule is_double_gap_three_tenths)
  then have "rnd (5404319552844596 * 2 powi (- 54) * 100) \<le> rnd (q * 100)"
    by (intro rnd_mono) simp
  then have a: "30 < rnd (q * 100)"
    using rnd_three_tenths_next_100 by simp
  have "rnd (q * 100) \<le> rnd 50"
    using hi by (intro rnd_mono) simp
  then have b: "rnd (q * 100) \<le> 50"
    by (simp only: rnd_50)
  show ?thesis
    using a b hi
    by (simp add: Fl float_lit_half float_mul_def fl_le_fl_round not_fl_le_fl_round)
next
  case PInf
  then show ?thesis using assms by (simp add: float_lit_half)
next
  case NInf
  then show ?thesis using assms by (simp add: float_lit_three_tenths)
next
  case FNaN
  then show ?thesis using assms by simp
qed

subsection \<open>Decimal products that are exact\<close>

lemma ndigits_le: "c < 10 ^ 28 \<Longrightarrow> ndigits c \<le> 28"
  unfolding ndigits_def by (rule floorlog_leI) simp_all

lemma dec_fix_exact:
  assumes "c < 10 ^ 28" and "- 1000026 \<le> e" and "e \<le> 999972"
  shows "dec_fix s c e = Inr (Dec s c e)"
proof -
  have "int (ndigits c) \<le> 28"
    using ndigits_le [OF assms(1)] by simp
  then show ?thesis
    using assms(2,3)
    by (auto simp add: dec_fix_def dec_prec_def dec_Emax_def dec_Emin_def dec_Etiny_def
        dec_Etop_def Let_def max_def)
qed

lemma dec_mul_exact:
  assumes "c * m < 10 ^ 28" and "- 1000026 \<le> e + f" and "e + f \<le> 999972"
  shows "dec_mul (Dec s c e) (Dec False m f) = Inr (Dec s (c * m) (e + f))"
  using dec_fix_exact [OF assms, of s] by simp

lemma dec_val_scale: "dec_val s (c * m) (e - 2) = dec_val s c e * (of_nat m / 100)"
  by (simp add: dec_val_def power_int_diff)

lemma dec_eq_refl: "\<not> dec_is_nan a \<Longrightarrow> dec_eq a a = Inr True"
  by (cases a) (simp_all add: dec_eq_def dec_is_nan_def dec_is_snan_def)

lemma ndigits_eqI: "10 ^ k \<le> c \<Longrightarrow> c < 10 ^ Suc k \<Longrightarrow> ndigits c = Suc k"
  unfolding ndigits_def
  by (intro antisym floorlog_leI floorlog_ge_SucI) simp_all

lemma ndigits_zero [simp]: "ndigits 0 = 0"
  by (simp add: ndigits_def floorlog_eq_zero_iff)

lemma dec_val_zero [simp]: "dec_val s 0 e = 0"
  by (simp add: dec_val_def)

lemma dec_val_pos: "0 < c \<Longrightarrow> 0 < dec_val False c e"
  by (simp add: dec_val_def)

lemma str_int_small:
  "str_int 5 = ''5''" "str_int 12 = ''12''"
  unfolding str_int_def by code_simp+

section \<open>The bid suggestion\<close>

lemma sample_sel [simp]:
  "current_bid (sample bid lo hi) = bid"
  "low_share (sample bid lo hi) = lo"
  "high_share (sample bid lo hi) = hi"
  "currency (sample bid lo hi) = ''USD''"
  by (simp_all add: sample_def)

lemma suggested_bid_keep:
  "(case high_share r of None \<Rightarrow> True | Some h \<Rightarrow> fl_le (float_lit (1 / 2)) h)
   \<Longrightarrow> suggested_bid r = Inr (current_bid r)"
  by (simp add: suggested_bid_def split: option.splits)

lemma suggested_bid_150:
  assumes "high_share r = Some h" and "fl_le h (float_lit (1 / 10))"
  shows "suggested_bid r = dec_mul (current_bid r) (Dec False 150 (- 2))"
  using tier_low [OF assms(2)] by (simp add: suggested_bid_def assms(1) Let_def)

lemma suggested_bid_125:
  assumes "high_share r = Some h" and "is_float h"
    and "fl_less (float_lit (1 / 10)) h" and "fl_le h (float_lit (3 / 10))"
  shows "suggested_bid r = dec_mul (current_bid r) (Dec False 125 (- 2))"
  using tier_mid [OF assms(2,3,4)] by (simp add: suggested_bid_def assms(1) Let_def)

lemma suggested_bid_110:
  assumes "high_share r = Some h" and "is_float h"
    and "fl_less (float_lit (3 / 10)) h" and "fl_less h (float_lit (1 / 2))"
  shows "suggested_bid r = dec_mul (current_bid r) (Dec False 110 (- 2))"
  using tier_high [OF assms(2,3,4)] by (simp add: suggested_bid_def assms(1) Let_def)

text \<open>
  Every branch of \<^verbatim>\<open>suggested_bid\<close> returns the bid itself or one of the three products.
\<close>

lemma suggested_bid_cases:
  "suggested_bid r = Inr (current_bid r)
   \<or> suggested_bid r = dec_mul (current_bid r) (Dec False 150 (- 2))
   \<or> suggested_bid r = dec_mul (current_bid r) (Dec False 125 (- 2))
   \<or> suggested_bid r = dec_mul (current_bid r) (Dec False 110 (- 2))"
  by (simp add: suggested_bid_def Let_def split: option.splits)

lemma is_float_literals:
  "is_float (float_lit (1 / 10))" "is_float (float_lit (3 / 10))" "is_float (float_lit (2 / 5))"
  by (simp_all add: is_float_def float_lit_tenth float_lit_three_tenths float_lit_two_fifths
      is_double_tenth is_double_three_tenths is_double_two_fifths)

lemma fl_less_literals:
  "fl_less (float_lit (1 / 10)) (float_lit (3 / 10))"
  "fl_less (float_lit (3 / 10)) (float_lit (2 / 5))"
  "fl_less (float_lit (2 / 5)) (float_lit (1 / 2))"
  by (simp_all add: float_lit_tenth float_lit_three_tenths float_lit_two_fifths float_lit_half)

lemma fl_le_refl_literals:
  "fl_le (float_lit (1 / 10)) (float_lit (1 / 10))"
  "fl_le (float_lit (3 / 10)) (float_lit (3 / 10))"
  "fl_le (float_lit (1 / 2)) (float_lit (1 / 2))"
  by (simp_all add: float_lit_tenth float_lit_three_tenths float_lit_half)

text \<open>
  C1. The three tiers of the suggestion. As stated, with the product \<open>current_bid \<times> 1.50\<close>
  taken exactly, the claim fails for a bid the default decimal context cannot multiply
  exactly: for the bid \<^verbatim>\<open>2E-1000027\<close> and a share of 0 the source returns
  \<^verbatim>\<open>0E-1000026\<close>, which is zero and not one and a half times the bid.
\<close>

theorem suggested_bid_tiers_inexact:
  "high_share (sample (Dec False 2 (- 1000027)) None (Some (Fl 0))) = Some (Fl 0)
   \<and> fl_le (Fl 0) (float_lit (1 / 10))
   \<and> suggested_bid (sample (Dec False 2 (- 1000027)) None (Some (Fl 0)))
       = Inr (Dec False 0 (- 1000026))
   \<and> dec_val False 0 (- 1000026) \<noteq> dec_val False 2 (- 1000027) * (3 / 2)"
proof -
  have n: "ndigits 300 = 3"
    by (rule ndigits_eqI [of 2, simplified]) simp_all
  have "dec_mul (Dec False 2 (- 1000027)) (Dec False 150 (- 2)) = Inr (Dec False 0 (- 1000026))"
    by (simp add: dec_fix_def n dec_prec_def dec_Emax_def dec_Emin_def dec_Etiny_def
        dec_Etop_def Let_def round_half_even_def)
  moreover have le: "fl_le (Fl 0) (float_lit (1 / 10))"
    by (simp add: float_lit_tenth)
  ultimately show ?thesis
    using suggested_bid_150 [of "sample (Dec False 2 (- 1000027)) None (Some (Fl 0))" "Fl 0"]
    using dec_val_pos [of 2 "- 1000027"] by simp
qed

text \<open>
  C1, amended. For every record: if \<open>high_share\<close> is \<^verbatim>\<open>None\<close> or at least 0.50 the
  suggestion is the current bid; and if the bid is a finite decimal \<open>Dec s c e\<close> that the
  default context multiplies exactly (\<open>c * 150 < 10 ^ 28\<close> and
  \<open>-1000024 \<le> e \<le> 999974\<close>), then a share of at most 0.10 gives the bid times 1.50 and a
  share above 0.10 and at most 0.30 gives the bid times 1.25. The thresholds are the
  float literals \<^verbatim>\<open>0.1\<close> and \<^verbatim>\<open>0.3\<close>, both boundaries included as stated.
\<close>

theorem suggested_bid_tiers:
  "((case high_share r of None \<Rightarrow> True | Some h \<Rightarrow> fl_le (float_lit (1 / 2)) h)
      \<longrightarrow> suggested_bid r = Inr (current_bid r))
   \<and> (current_bid r = Dec s c e \<and> c * 150 < 10 ^ 28 \<and> - 1000024 \<le> e \<and> e \<le> 999974
        \<and> high_share r = Some h \<and> fl_le h (float_lit (1 / 10))
      \<longrightarrow> suggested_bid r = Inr (Dec s (c * 150) (e - 2))
          \<and> dec_val s (c * 150) (e - 2) = dec_val s c e * (3 / 2))
   \<and> (current_bid r = Dec s c e \<and> c * 150 < 10 ^ 28 \<and> - 1000024 \<le> e \<and> e \<le> 999974
        \<and> high_share r = Some h \<and> is_float h
        \<and> fl_less (float_lit (1 / 10)) h \<and> fl_le h (float_lit (3 / 10))
      \<longrightarrow> suggested_bid r = Inr (Dec s (c * 125) (e - 2))
          \<and> dec_val s (c * 125) (e - 2) = dec_val s c e * (5 / 4))"
proof (intro conjI impI)
  assume "case high_share r of None \<Rightarrow> True | Some h \<Rightarrow> fl_le (float_lit (1 / 2)) h"
  then show "suggested_bid r = Inr (current_bid r)"
    by (rule suggested_bid_keep)
next
  assume a: "current_bid r = Dec s c e \<and> c * 150 < 10 ^ 28 \<and> - 1000024 \<le> e \<and> e \<le> 999974
             \<and> high_share r = Some h \<and> fl_le h (float_lit (1 / 10))"
  then have "suggested_bid r = dec_mul (Dec s c e) (Dec False 150 (- 2))"
    using suggested_bid_150 [of r h] by simp
  also have "\<dots> = Inr (Dec s (c * 150) (e + - 2))"
    using a by (intro dec_mul_exact) simp_all
  finally show "suggested_bid r = Inr (Dec s (c * 150) (e - 2))" by simp
next
  show "dec_val s (c * 150) (e - 2) = dec_val s c e * (3 / 2)"
    by (simp add: dec_val_scale)
next
  assume a: "current_bid r = Dec s c e \<and> c * 150 < 10 ^ 28 \<and> - 1000024 \<le> e \<and> e \<le> 999974
             \<and> high_share r = Some h \<and> is_float h
             \<and> fl_less (float_lit (1 / 10)) h \<and> fl_le h (float_lit (3 / 10))"
  then have "suggested_bid r = dec_mul (Dec s c e) (Dec False 125 (- 2))"
    using suggested_bid_125 [of r h] by simp
  also have "\<dots> = Inr (Dec s (c * 125) (e + - 2))"
    using a by (intro dec_mul_exact) simp_all
  finally show "suggested_bid r = Inr (Dec s (c * 125) (e - 2))" by simp
next
  show "dec_val s (c * 125) (e - 2) = dec_val s c e * (5 / 4)"
    by (simp add: dec_val_scale)
qed

theorem suggested_bid_tiers_witness:
  "suggested_bid (sample (Dec False 200 (- 2)) None None) = Inr (Dec False 200 (- 2))
   \<and> suggested_bid (sample (Dec False 200 (- 2)) None (Some (float_lit (1 / 10))))
       = Inr (Dec False 30000 (- 4))
   \<and> suggested_bid (sample (Dec False 200 (- 2)) None (Some (float_lit (3 / 10))))
       = Inr (Dec False 25000 (- 4))"
  using suggested_bid_tiers [of "sample (Dec False 200 (- 2)) None None"]
    suggested_bid_tiers [of "sample (Dec False 200 (- 2)) None (Some (float_lit (1 / 10)))"
      False 200 "- 2" "float_lit (1 / 10)"]
    suggested_bid_tiers [of "sample (Dec False 200 (- 2)) None (Some (float_lit (3 / 10)))"
      False 200 "- 2" "float_lit (3 / 10)"]
  by (simp add: is_float_literals fl_less_literals fl_le_refl_literals)

text \<open>
  C2. The upper tier. As stated the claim fails at a share of exactly 0.50, where the
  guard \<^verbatim>\<open>high_share >= 0.5\<close> returns the bid unchanged: for a bid of 1 the suggestion is
  1, not 1.10.
\<close>

theorem suggested_bid_at_half:
  "0 < dec_val False 1 0
   \<and> suggested_bid (sample (Dec False 1 0) None (Some (float_lit (1 / 2)))) = Inr (Dec False 1 0)
   \<and> dec_val False 1 0 \<noteq> dec_val False 1 0 * (11 / 10)"
  using suggested_bid_keep [of "sample (Dec False 1 0) None (Some (float_lit (1 / 2)))"]
  by (simp add: fl_le_refl_literals dec_val_def)

text \<open>
  C2, amended. For every record whose bid is a positive finite decimal \<open>Dec False c e\<close>
  that the default context multiplies exactly (\<open>c * 110 < 10 ^ 28\<close> and
  \<open>-1000024 \<le> e \<le> 999974\<close>) and whose \<open>high_share\<close> lies in the open interval
  \<open>(0.30, 0.50)\<close>, the suggestion is the bid times 1.10.
\<close>

theorem suggested_bid_upper_tier:
  assumes "current_bid r = Dec False c e" and "0 < c" and "c * 110 < 10 ^ 28"
    and "- 1000024 \<le> e" and "e \<le> 999974"
    and "high_share r = Some h" and "is_float h"
    and "fl_less (float_lit (3 / 10)) h" and "fl_less h (float_lit (1 / 2))"
  shows "suggested_bid r = Inr (Dec False (c * 110) (e - 2))
         \<and> dec_val False (c * 110) (e - 2) = dec_val False c e * (11 / 10)"
proof -
  have "suggested_bid r = dec_mul (Dec False c e) (Dec False 110 (- 2))"
    using suggested_bid_110 [OF assms(6-9)] by (simp add: assms(1))
  also have "\<dots> = Inr (Dec False (c * 110) (e + - 2))"
    using assms(3-5) by (intro dec_mul_exact) simp_all
  finally show ?thesis by (simp add: dec_val_scale)
qed

theorem suggested_bid_upper_tier_witness:
  "suggested_bid (sample (Dec False 200 (- 2)) None (Some (float_lit (2 / 5))))
     = Inr (Dec False 22000 (- 4))
   \<and> dec_val False 22000 (- 4) = dec_val False 200 (- 2) * (11 / 10)"
  using suggested_bid_upper_tier [of "sample (Dec False 200 (- 2)) None (Some (float_lit (2 / 5)))"
      200 "- 2" "float_lit (2 / 5)"]
  by (simp add: is_float_literals fl_less_literals)

text \<open>
  C8. No change at a share of \<^verbatim>\<open>None\<close> or at least 0.50. As stated the claim fails for a
  bid that is a NaN: the suggestion is the bid, but \<^verbatim>\<open>suggested == self.current_bid\<close> is
  false for a NaN, so the display is \<open>NaN USD\<close> and not \<open>-\<close>.
\<close>

theorem suggested_bid_str_nan:
  "suggested_bid_str (sample (DNaN False 0) None None) = Inr ''NaN USD''
   \<and> suggested_bid_str (sample (DNaN False 0) None (Some (float_lit (1 / 2)))) = Inr ''NaN USD''
   \<and> suggested_bid_str (sample (DsNaN False 0) None None) = Inl InvalidOperation"
  using suggested_bid_keep [of "sample (DNaN False 0) None None"]
    suggested_bid_keep [of "sample (DNaN False 0) None (Some (float_lit (1 / 2)))"]
    suggested_bid_keep [of "sample (DsNaN False 0) None None"]
  by (simp add: suggested_bid_str_def dec_eq_def dec_is_nan_def dec_is_snan_def fmt2f_def
      dec_sign_str_def dec_payload_str_def fl_le_refl_literals)

text \<open>
  C8, amended. For every record whose bid is not a NaN and whose \<open>high_share\<close> is \<^verbatim>\<open>None\<close>
  or at least 0.50, the suggested bid is the current bid and it is displayed as \<open>-\<close>.
\<close>

theorem suggested_bid_unchanged:
  assumes "\<not> dec_is_nan (current_bid r)"
    and "case high_share r of None \<Rightarrow> True | Some h \<Rightarrow> fl_le (float_lit (1 / 2)) h"
  shows "suggested_bid r = Inr (current_bid r) \<and> suggested_bid_str r = Inr ''-''"
  using suggested_bid_keep [OF assms(2)] dec_eq_refl [OF assms(1)]
  by (simp add: suggested_bid_str_def)

theorem suggested_bid_unchanged_witness:
  "suggested_bid_str (sample (Dec False 125 (- 2)) (Some (Fl (1 / 2))) (Some (Fl (3 / 4)))) = Inr ''-''
   \<and> suggested_bid_str (sample (DInf False) None None) = Inr ''-''"
proof -
  have n1: "\<not> dec_is_nan (current_bid (sample (Dec False 125 (- 2)) (Some (Fl (1 / 2))) (Some (Fl (3 / 4)))))"
    by (simp add: dec_is_nan_def)
  have h1: "case high_share (sample (Dec False 125 (- 2)) (Some (Fl (1 / 2))) (Some (Fl (3 / 4)))) of
              None \<Rightarrow> True | Some h \<Rightarrow> fl_le (float_lit (1 / 2)) h"
    by (simp add: float_lit_half)
  have n2: "\<not> dec_is_nan (current_bid (sample (DInf False) None None))"
    by (simp add: dec_is_nan_def)
  have h2: "case high_share (sample (DInf False) None None) of
              None \<Rightarrow> True | Some h \<Rightarrow> fl_le (float_lit (1 / 2)) h"
    by simp
  show ?thesis
    using suggested_bid_unchanged [OF n1 h1] suggested_bid_unchanged [OF n2 h2] by simp
qed

text \<open>
  C9. The suggestion never lowers a bid. As stated the claim fails for a bid so small
  that the product underflows in the default decimal context: for the bid
  \<^verbatim>\<open>4E-1000027\<close> and a share of 0.4 the source returns \<^verbatim>\<open>0E-1000026\<close>, which is zero and
  below the bid.
\<close>

theorem suggested_bid_lowers_tiny_bid:
  "0 \<le> dec_val False 4 (- 1000027)
   \<and> suggested_bid (sample (Dec False 4 (- 1000027)) None (Some (float_lit (2 / 5))))
       = Inr (Dec False 0 (- 1000026))
   \<and> dec_val False 0 (- 1000026) < dec_val False 4 (- 1000027)"
proof -
  have n: "ndigits 440 = 3"
    by (rule ndigits_eqI [of 2, simplified]) simp_all
  have "dec_mul (Dec False 4 (- 1000027)) (Dec False 110 (- 2)) = Inr (Dec False 0 (- 1000026))"
    by (simp add: dec_fix_def n dec_prec_def dec_Emax_def dec_Emin_def dec_Etiny_def
        dec_Etop_def Let_def round_half_even_def)
  then show ?thesis
    using suggested_bid_110 [of "sample (Dec False 4 (- 1000027)) None (Some (float_lit (2 / 5)))"
        "float_lit (2 / 5)"]
    using dec_val_pos [of 4 "- 1000027"] by (simp add: is_float_literals fl_less_literals)
qed

text \<open>
  C9, amended. For every record whose bid is a non-negative finite decimal \<open>Dec False c e\<close>
  that the default context multiplies exactly (\<open>c * 150 < 10 ^ 28\<close> and
  \<open>-1000024 \<le> e \<le> 999974\<close>), the suggestion is a finite decimal not below the bid,
  whatever \<open>high_share\<close> is.
\<close>

theorem suggested_bid_never_lowers:
  assumes "current_bid r = Dec False c e" and "c * 150 < 10 ^ 28"
    and "- 1000024 \<le> e" and "e \<le> 999974"
  shows "\<exists>d f. suggested_bid r = Inr (Dec False d f) \<and> dec_val False c e \<le> dec_val False d f"
proof -
  have m: "dec_mul (Dec False c e) (Dec False m (- 2)) = Inr (Dec False (c * m) (e - 2))"
    if "m \<le> 150" for m
  proof -
    have "c * m \<le> c * 150" using that by (rule mult_le_mono2)
    then have "c * m < 10 ^ 28" using assms(2) by (rule le_less_trans)
    then have "dec_mul (Dec False c e) (Dec False m (- 2)) = Inr (Dec False (c * m) (e + - 2))"
      using assms(3,4) by (intro dec_mul_exact) simp_all
    then show ?thesis by simp
  qed
  have v: "dec_val False c e \<le> dec_val False (c * m) (e - 2)" if "100 \<le> m" for m
  proof -
    have "(1::rat) \<le> of_nat m / 100" using that by simp
    moreover have "0 \<le> dec_val False c e" by (simp add: dec_val_def)
    ultimately have "dec_val False c e * 1 \<le> dec_val False c e * (of_nat m / 100)"
      by (intro mult_left_mono)
    then show ?thesis by (simp add: dec_val_scale)
  qed
  from suggested_bid_cases [of r] show ?thesis
    using m [of 150] m [of 125] m [of 110] v [of 150] v [of 125] v [of 110]
    by (auto simp: assms(1))
qed

theorem suggested_bid_never_lowers_witness:
  "\<exists>d f. suggested_bid (sample (Dec False 200 (- 2)) None (Some (Fl (1 / 4)))) = Inr (Dec False d f)
         \<and> dec_val False 200 (- 2) \<le> dec_val False d f"
  using suggested_bid_never_lowers [of "sample (Dec False 200 (- 2)) None (Some (Fl (1 / 4)))" 200 "- 2"]
  by simp

section \<open>Formatting the share range\<close>

text \<open>
  C7. \<^verbatim>\<open>share_range\<close> maps a low share of 0.05 and a high share of 0.12 to \<open>5-12%\<close>, and
  maps the record with both shares \<^verbatim>\<open>None\<close> to \<open>N/A\<close>.
\<close>

theorem share_range_examples:
  "(low_share r = Some (float_lit (5 / 100)) \<and> high_share r = Some (float_lit (12 / 100))
      \<longrightarrow> share_range r = Inr ''5-12%'')
   \<and> (low_share r = None \<and> high_share r = None \<longrightarrow> share_range r = Inr ''N/A'')"
  by (simp add: share_range_def share_pct_def fl_truthy_def py_int_def float_lit_twentieth
      float_lit_3_25 float_mul_twentieth_100 float_mul_3_25_100 str_int_small)

theorem share_range_examples_witness:
  "share_range (sample (Dec False 200 (- 2)) (Some (float_lit (5 / 100))) (Some (float_lit (12 / 100))))
     = Inr ''5-12%''
   \<and> share_range (sample (Dec False 200 (- 2)) None None) = Inr ''N/A''"
  using share_range_examples
      [of "sample (Dec False 200 (- 2)) (Some (float_lit (5 / 100))) (Some (float_lit (12 / 100)))"]
    share_range_examples [of "sample (Dec False 200 (- 2)) None None"]
  by simp

section \<open>The share filter\<close>

text \<open>
  C4. With \<^verbatim>\<open>--min-share 30\<close> the filter of \<^verbatim>\<open>analyze\<close> keeps exactly the rows whose
  \<open>high_share\<close> is present and strictly below the float 0.30 (\<^verbatim>\<open>30 / 100.0\<close> is that
  float); a row at exactly 0.30 and a row without \<open>high_share\<close> are dropped.
\<close>

theorem min_share_30:
  "min_share_filter (Some (Fl 30)) data
     = filter (\<lambda>d. case high_share d of None \<Rightarrow> False | Some h \<Rightarrow> fl_less h (float_lit (3 / 10))) data
   \<and> analyze_filtered campaign (Some (Fl 30)) parsed
     = filter (\<lambda>d. case high_share d of None \<Rightarrow> False | Some h \<Rightarrow> fl_less h (float_lit (3 / 10)))
         (campaign_filter campaign parsed)
   \<and> \<not> share_below (float_div (Fl 30) 100) (sample bid lo (Some (float_lit (3 / 10))))
   \<and> \<not> share_below (float_div (Fl 30) 100) (sample bid lo None)"
proof -
  have "share_below (float_lit (3 / 10))
          = (\<lambda>d. case high_share d of None \<Rightarrow> False | Some h \<Rightarrow> fl_less h (float_lit (3 / 10)))"
    by (rule ext) (simp add: share_below_def)
  then show ?thesis
    by (simp add: min_share_filter_def analyze_filtered_def float_div_30_100 Let_def
        share_below_def float_lit_three_tenths)
qed

section \<open>The lookback window\<close>

lemma lookback_window_value:
  assumes "2 \<le> today" and "today \<le> 3652059" and "- 999999998 \<le> days"
    and "1 \<le> today - 1 - (min days 30 - 1)" and "today - 1 - (min days 30 - 1) \<le> 3652059"
  shows "lookback_window today days =
           Inr \<lparr>lb_days = min days 30,
                lb_warnings = (if 30 < days then [''Maximum lookback is 30 days, using 30''] else []),
                lb_start_date = today - 1 - (min days 30 - 1),
                lb_end_date = today - 1\<rparr>"
  using assms
  by (cases "30 < days") (simp_all add: lookback_window_def timedelta_def date_sub_def Let_def)

text \<open>
  C3. The window of the three commands. As stated the claim fails when the start date is
  not a date: on 2025-01-01 (ordinal 739252) with \<^verbatim>\<open>--days -3000000\<close> the subtraction
  \<^verbatim>\<open>end_date - timedelta(days=days - 1)\<close> raises \<^verbatim>\<open>OverflowError\<close> in each command, so
  no start date is produced.
\<close>

theorem lookback_window_overflow:
  "analyze_window 739252 (- 3000000) = Inl OverflowError
   \<and> optimize_window 739252 (- 3000000) = Inl OverflowError
   \<and> report_window 739252 (- 3000000) = Inl OverflowError"
  by (simp add: analyze_window_def optimize_window_def report_window_def lookback_window_def
      timedelta_def date_sub_def Let_def)

text \<open>
  C3, amended. In each of the three commands, whenever yesterday and the start date are
  dates (ordinals between 1 and 3652059) and \<open>days - 1\<close> is a \<^verbatim>\<open>timedelta\<close>: a \<open>days\<close>
  above 30 is clamped to 30 with the warning, the end date is today minus one day, and
  the start date is the end date minus \<open>days - 1\<close> days, for the clamped \<open>days\<close>.
\<close>

theorem lookback_window_ok:
  assumes "2 \<le> today" and "today \<le> 3652059" and "- 999999998 \<le> days"
    and "1 \<le> today - 1 - (min days 30 - 1)" and "today - 1 - (min days 30 - 1) \<le> 3652059"
  shows "analyze_window today days =
           Inr \<lparr>lb_days = min days 30,
                lb_warnings = (if 30 < days then [''Maximum lookback is 30 days, using 30''] else []),
                lb_start_date = today - 1 - (min days 30 - 1),
                lb_end_date = today - 1\<rparr>
         \<and> optimize_window today days = analyze_window today days
         \<and> report_window today days = analyze_window today days"
  using lookback_window_value [OF assms]
  by (simp add: analyze_window_def optimize_window_def report_window_def)

theorem lookback_window_ok_witness:
  "analyze_window 739252 45 =
     Inr \<lparr>lb_days = 30, lb_warnings = [''Maximum lookback is 30 days, using 30''],
          lb_start_date = 739222, lb_end_date = 739251\<rparr>
   \<and> report_window 739252 7 =
     Inr \<lparr>lb_days = 7, lb_warnings = [], lb_start_date = 739245, lb_end_date = 739251\<rparr>"
  using lookback_window_ok [of 739252 45] lookback_window_ok [of 739252 7]
  by simp

section \<open>Parsing the report\<close>

lemma parse_rows_eq:
  "parse_rows kws rows acc = acc @ map (row_record kws) (filter row_kept rows)"
  by (induction rows arbitrary: acc)
     (auto simp: row_kept_def row_record_def or_int_def or_str_def split: option.splits)

text \<open>
  C10. \<^verbatim>\<open>_parse_report_data\<close> returns, in input order, one record for each row whose
  \<open>keyword_id\<close> and \<open>keyword\<close> are both truthy, and drops exactly the other rows. A kept
  row whose \<open>keyword_id\<close> is not in the bid lookup gets the bid 0 and the currency
  \<open>USD\<close>; a missing campaign or ad-group id becomes 0, a missing name or country the
  empty string.
\<close>

theorem parse_report_data_spec:
  "parse_report_data rows kws = map (row_record kws) (filter row_kept rows)
   \<and> length (parse_report_data rows kws) = length (filter row_kept rows)
   \<and> (row_kept row \<longrightarrow>
        meta_keyword_id (row_metadata row) = Some (keyword_id (row_record kws row))
        \<and> meta_keyword (row_metadata row) = Some (keyword (row_record kws row)))
   \<and> (row_kept row \<and> kws (keyword_id (row_record kws row)) = None \<longrightarrow>
        current_bid (row_record kws row) = Dec False 0 0
        \<and> currency (row_record kws row) = ''USD'')
   \<and> (meta_campaign_id (row_metadata row) = None \<longrightarrow> campaign_id (row_record kws row) = 0)
   \<and> (meta_ad_group_id (row_metadata row) = None \<longrightarrow> ad_group_id (row_record kws row) = 0)
   \<and> (meta_campaign_name (row_metadata row) = None \<longrightarrow> campaign_name (row_record kws row) = [])
   \<and> (meta_ad_group_name (row_metadata row) = None \<longrightarrow> ad_group_name (row_record kws row) = [])
   \<and> (meta_country_or_region (row_metadata row) = None \<longrightarrow> country (row_record kws row) = [])"
  by (auto simp: parse_report_data_def parse_rows_eq row_record_def make_record_def
      row_kept_def or_int_def or_str_def Let_def split: option.splits)

theorem parse_report_data_spec_witness:
  "parse_report_data
     [sample_row (Some 7) (Some ''chess'') None, sample_row None (Some ''go'') None,
      sample_row (Some 8) (Some []) None, sample_row (Some 9) (Some ''shogi'') None]
     Map.empty
   = [row_record Map.empty (sample_row (Some 7) (Some ''chess'') None),
      row_record Map.empty (sample_row (Some 9) (Some ''shogi'') None)]
   \<and> current_bid (row_record Map.empty (sample_row (Some 7) (Some ''chess'') None)) = Dec False 0 0
   \<and> currency (row_record Map.empty (sample_row (Some 7) (Some ''chess'') None)) = ''USD''
   \<and> campaign_id (row_record Map.empty (sample_row (Some 7) (Some ''chess'') None)) = 0
   \<and> ad_group_name (row_record Map.empty (sample_row (Some 7) (Some ''chess'') None)) = []
   \<and> country (row_record Map.empty (sample_row (Some 7) (Some ''chess'') None)) = []"
  using parse_report_data_spec
    [of "[sample_row (Some 7) (Some ''chess'') None, sample_row None (Some ''go'') None,
          sample_row (Some 8) (Some []) None, sample_row (Some 9) (Some ''shogi'') None]"
        Map.empty "sample_row (Some 7) (Some ''chess'') None"]
  by (simp add: row_kept_def sample_row_def)

section \<open>The CSV export\<close>




section \<open>The sort on totally ordered keys\<close>

text \<open>
  In this section \<open>lt\<close> is a comparison that, on the elements of a set \<open>S\<close>, is the strict
  order of a key \<open>f\<close> with linearly ordered values.
\<close>

lemma count_asc_le: "count_asc lt prev xs \<le> length xs"
  by (induction xs arbitrary: prev) auto

lemma count_desc_le: "count_desc lt prev xs \<le> length xs"
  by (induction xs arbitrary: prev) auto

lemma count_asc_sorted:
  fixes f :: "'a \<Rightarrow> 'b::linorder"
  assumes emb: "\<And>x y. x \<in> S \<Longrightarrow> y \<in> S \<Longrightarrow> lt x y \<longleftrightarrow> f x < f y"
  shows "prev \<in> S \<Longrightarrow> set xs \<subseteq> S
         \<Longrightarrow> sorted_wrt (\<lambda>a b. f a \<le> f b) (prev # take (count_asc lt prev xs) xs)"
proof (induction xs arbitrary: prev)
  case Nil
  then show ?case by simp
next
  case (Cons x xs)
  show ?case
  proof (cases "lt x prev")
    case True
    then show ?thesis by simp
  next
    case False
    then have le: "f prev \<le> f x"
      using emb [of x prev] Cons.prems by simp
    have ih: "sorted_wrt (\<lambda>a b. f a \<le> f b) (x # take (count_asc lt x xs) xs)"
      using Cons.IH [of x] Cons.prems by simp
    then have "\<forall>y\<in>set (take (count_asc lt x xs) xs). f prev \<le> f y"
      using le by (auto intro: order_trans)
    then show ?thesis
      using False le ih by simp
  qed
qed

lemma count_desc_sorted:
  fixes f :: "'a \<Rightarrow> 'b::linorder"
  assumes emb: "\<And>x y. x \<in> S \<Longrightarrow> y \<in> S \<Longrightarrow> lt x y \<longleftrightarrow> f x < f y"
  shows "prev \<in> S \<Longrightarrow> set xs \<subseteq> S
         \<Longrightarrow> sorted_wrt (\<lambda>a b. f b \<le> f a) (prev # take (count_desc lt prev xs) xs)"
proof (induction xs arbitrary: prev)
  case Nil
  then show ?case by simp
next
  case (Cons x xs)
  show ?case
  proof (cases "lt x prev")
    case False
    then show ?thesis by simp
  next
    case True
    then have le: "f x \<le> f prev"
      using emb [of x prev] Cons.prems by simp
    have ih: "sorted_wrt (\<lambda>a b. f b \<le> f a) (x # take (count_desc lt x xs) xs)"
      using Cons.IH [of x] Cons.prems by simp
    then have "\<forall>y\<in>set (take (count_desc lt x xs) xs). f y \<le> f prev"
      using le by (auto intro: order_trans)
    then show ?thesis
      using True le ih by simp
  qed
qed

text \<open>The run the list starts with, put in ascending order, and the rest.\<close>

lemma count_run_sorted:
  fixes f :: "'a \<Rightarrow> 'b::linorder"
  assumes emb: "\<And>x y. x \<in> S \<Longrightarrow> y \<in> S \<Longrightarrow> lt x y \<longleftrightarrow> f x < f y"
    and sub: "set xs \<subseteq> S"
    and run: "count_run lt xs = (n, descending)"
  shows "sorted_wrt (\<lambda>a b. f a \<le> f b) (if descending then rev (take n xs) else take n xs)
         \<and> n \<le> length xs"
proof -
  consider "xs = []" | x where "xs = [x]" | x y zs where "xs = x # y # zs"
    by (cases xs; cases "tl xs") auto
  then show ?thesis
  proof cases
    case 1
    then show ?thesis using run by auto
  next
    case 2
    then show ?thesis using run by auto
  next
    case xs: 3
    have mem: "x \<in> S" "y \<in> S" "set zs \<subseteq> S"
      using sub xs by simp_all
    show ?thesis
    proof (cases "lt y x")
      case True
      then have n: "n = 2 + count_desc lt y zs" and d: "descending"
        using run xs by simp_all
      have "f y \<le> f x"
        using True emb [of y x] mem by simp
      moreover have s: "sorted_wrt (\<lambda>a b. f b \<le> f a) (y # take (count_desc lt y zs) zs)"
        using mem by (intro count_desc_sorted [OF emb])
      ultimately have "sorted_wrt (\<lambda>a b. f b \<le> f a) (x # y # take (count_desc lt y zs) zs)"
        by (auto intro: order_trans)
      then have "sorted_wrt (\<lambda>a b. f a \<le> f b) (rev (x # y # take (count_desc lt y zs) zs))"
        by (simp only: sorted_wrt_rev)
      then show ?thesis
        using d count_desc_le [of lt y zs] by (simp add: n xs)
    next
      case False
      then have n: "n = 2 + count_asc lt y zs" and d: "\<not> descending"
        using run xs by simp_all
      have "f x \<le> f y"
        using False emb [of y x] mem by simp
      moreover have s: "sorted_wrt (\<lambda>a b. f a \<le> f b) (y # take (count_asc lt y zs) zs)"
        using mem by (intro count_asc_sorted [OF emb])
      ultimately have "sorted_wrt (\<lambda>a b. f a \<le> f b) (x # y # take (count_asc lt y zs) zs)"
        by (auto intro: order_trans)
      then show ?thesis
        using d count_asc_le [of lt y zs] by (simp add: n xs)
    qed
  qed
qed

text \<open>The binary search returns the place after the last element that is not above the pivot.\<close>

lemma bisect_spec:
  fixes f :: "'a \<Rightarrow> 'b::linorder"
  assumes emb: "\<And>x y. x \<in> S \<Longrightarrow> y \<in> S \<Longrightarrow> lt x y \<longleftrightarrow> f x < f y"
    and sub: "set pre \<subseteq> S" and x: "x \<in> S"
    and srt: "sorted_wrt (\<lambda>a b. f a \<le> f b) pre"
  shows "l \<le> r \<Longrightarrow> r \<le> length pre
         \<Longrightarrow> \<forall>i<l. f (pre ! i) \<le> f x
         \<Longrightarrow> \<forall>i. r \<le> i \<longrightarrow> i < length pre \<longrightarrow> f x < f (pre ! i)
         \<Longrightarrow> l \<le> bisect lt x pre l r \<and> bisect lt x pre l r \<le> r
             \<and> (\<forall>i<bisect lt x pre l r. f (pre ! i) \<le> f x)
             \<and> (\<forall>i. bisect lt x pre l r \<le> i \<longrightarrow> i < length pre \<longrightarrow> f x < f (pre ! i))"
proof (induction "r - l" arbitrary: l r rule: less_induct)
  case less
  show ?case
  proof (cases "l < r")
    case False
    then have "bisect lt x pre l r = l"
      by (subst bisect.simps) simp
    then show ?thesis
      using less.prems False by auto
  next
    case True
    define p where "p = l + (r - l) div 2"
    have p: "l \<le> p" "p < r" "p < length pre"
      using True less.prems(2) by (auto simp: p_def)
    have pS: "pre ! p \<in> S"
      using sub p(3) by (auto simp: subset_iff)
    show ?thesis
    proof (cases "lt x (pre ! p)")
      case lt: True
      then have b: "bisect lt x pre l r = bisect lt x pre l p"
        using True by (subst bisect.simps) (simp add: p_def)
      have xp: "f x < f (pre ! p)"
        using lt emb [OF x pS] by simp
      have up: "\<forall>i. p \<le> i \<longrightarrow> i < length pre \<longrightarrow> f x < f (pre ! i)"
      proof (intro allI impI)
        fix i assume i: "p \<le> i" "i < length pre"
        show "f x < f (pre ! i)"
        proof (cases "i = p")
          case True
          then show ?thesis using xp by simp
        next
          case False
          then have "p < i" using i by simp
          then have "f (pre ! p) \<le> f (pre ! i)"
            using sorted_wrt_nth_less [OF srt, of p i] i by simp
          then show ?thesis using xp by simp
        qed
      qed
      have "l \<le> bisect lt x pre l p \<and> bisect lt x pre l p \<le> p
            \<and> (\<forall>i<bisect lt x pre l p. f (pre ! i) \<le> f x)
            \<and> (\<forall>i. bisect lt x pre l p \<le> i \<longrightarrow> i < length pre \<longrightarrow> f x < f (pre ! i))"
        using p less.prems(3) up by (intro less.hyps) auto
      then show ?thesis
        unfolding b using p by auto
    next
      case nlt: False
      then have b: "bisect lt x pre l r = bisect lt x pre (p + 1) r"
        using True by (subst bisect.simps) (simp add: p_def)
      have px: "f (pre ! p) \<le> f x"
        using nlt emb [OF x pS] by simp
      have low: "\<forall>i<p + 1. f (pre ! i) \<le> f x"
      proof (intro allI impI)
        fix i assume i: "i < p + 1"
        show "f (pre ! i) \<le> f x"
        proof (cases "i = p")
          case True
          then show ?thesis using px by simp
        next
          case False
          then have "i < p" using i by simp
          then have "f (pre ! i) \<le> f (pre ! p)"
            using sorted_wrt_nth_less [OF srt, of i p] p by simp
          then show ?thesis using px by simp
        qed
      qed
      have "p + 1 \<le> bisect lt x pre (p + 1) r \<and> bisect lt x pre (p + 1) r \<le> r
            \<and> (\<forall>i<bisect lt x pre (p + 1) r. f (pre ! i) \<le> f x)
            \<and> (\<forall>i. bisect lt x pre (p + 1) r \<le> i \<longrightarrow> i < length pre
                  \<longrightarrow> f x < f (pre ! i))"
        using p less.prems(2,4) low by (intro less.hyps) auto
      then show ?thesis
        unfolding b using p by auto
    qed
  qed
qed

lemma insert_at_bisect_sorted:
  fixes f :: "'a \<Rightarrow> 'b::linorder"
  assumes emb: "\<And>x y. x \<in> S \<Longrightarrow> y \<in> S \<Longrightarrow> lt x y \<longleftrightarrow> f x < f y"
    and sub: "set pre \<subseteq> S" and x: "x \<in> S"
    and srt: "sorted_wrt (\<lambda>a b. f a \<le> f b) pre"
  shows "sorted_wrt (\<lambda>a b. f a \<le> f b)
           (take (bisect lt x pre 0 (length pre)) pre @ x # drop (bisect lt x pre 0 (length pre)) pre)"
proof -
  define k where "k = bisect lt x pre 0 (length pre)"
  have spec: "k \<le> length pre" "\<forall>i<k. f (pre ! i) \<le> f x"
    "\<forall>i. k \<le> i \<longrightarrow> i < length pre \<longrightarrow> f x < f (pre ! i)"
    using bisect_spec [OF emb sub x srt, of 0 "length pre"] by (auto simp: k_def)
  have a: "\<forall>a\<in>set (take k pre). f a \<le> f x"
    using spec(1,2) by (auto simp: in_set_conv_nth)
  have b: "\<forall>b\<in>set (drop k pre). f x < f b"
    using spec(1,3) by (auto simp: in_set_conv_nth)
  have "sorted_wrt (\<lambda>a b. f a \<le> f b) (take k pre)"
    using srt by (rule sorted_wrt_take)
  moreover have "sorted_wrt (\<lambda>a b. f a \<le> f b) (drop k pre)"
    using srt by (rule sorted_wrt_drop)
  ultimately have "sorted_wrt (\<lambda>a b. f a \<le> f b) (take k pre @ x # drop k pre)"
    using a b by (fastforce simp: sorted_wrt_append intro: less_imp_le order_trans)
  then show ?thesis by (simp add: k_def)
qed

lemma binarysort_sorted:
  fixes f :: "'a \<Rightarrow> 'b::linorder"
  assumes emb: "\<And>x y. x \<in> S \<Longrightarrow> y \<in> S \<Longrightarrow> lt x y \<longleftrightarrow> f x < f y"
  shows "set pre \<subseteq> S \<Longrightarrow> set rest \<subseteq> S \<Longrightarrow> sorted_wrt (\<lambda>a b. f a \<le> f b) pre
         \<Longrightarrow> sorted_wrt (\<lambda>a b. f a \<le> f b) (binarysort lt pre rest)"
proof (induction rest arbitrary: pre)
  case Nil
  then show ?case by simp
next
  case (Cons x rest)
  define k where "k = bisect lt x pre 0 (length pre)"
  have "sorted_wrt (\<lambda>a b. f a \<le> f b) (take k pre @ x # drop k pre)"
    unfolding k_def using Cons.prems by (intro insert_at_bisect_sorted [OF emb]) auto
  moreover have "set (take k pre @ x # drop k pre) \<subseteq> S"
    using Cons.prems set_take_subset [of k pre] set_drop_subset [of k pre] by auto
  ultimately have "sorted_wrt (\<lambda>a b. f a \<le> f b) (binarysort lt (take k pre @ x # drop k pre) rest)"
    using Cons.prems by (intro Cons.IH) auto
  then show ?case by (simp add: k_def Let_def)
qed

lemma mset_take_drop: "mset (take k xs) + mset (drop k xs) = mset xs"
  using arg_cong [OF append_take_drop_id [of k xs], of mset] by (simp only: mset_append)

lemma binarysort_mset: "mset (binarysort lt pre rest) = mset pre + mset rest"
proof (induction rest arbitrary: pre)
  case Nil
  then show ?case by simp
next
  case (Cons x rest)
  have "mset (take k pre @ x # drop k pre) = add_mset x (mset pre)" for k
    by (simp add: mset_take_drop)
  then show ?case
    by (simp add: Cons.IH Let_def)
qed

lemma list_sort_mset: "mset (list_sort key lt xs) = mset xs"
proof -
  obtain n d where run: "count_run (\<lambda>x y. lt (key x) (key y)) xs = (n, d)"
    by (cases "count_run (\<lambda>x y. lt (key x) (key y)) xs")
  show ?thesis
    by (simp add: list_sort_def run binarysort_mset mset_take_drop Let_def)
qed

lemma list_sort_sorted:
  fixes g :: "'k \<Rightarrow> 'b::linorder"
  assumes emb: "\<And>x y. x \<in> set xs \<Longrightarrow> y \<in> set xs \<Longrightarrow> lt (key x) (key y) \<longleftrightarrow> g (key x) < g (key y)"
  shows "sorted_wrt (\<lambda>a b. g (key a) \<le> g (key b)) (list_sort key lt xs)"
proof -
  obtain n d where run: "count_run (\<lambda>x y. lt (key x) (key y)) xs = (n, d)"
    by (cases "count_run (\<lambda>x y. lt (key x) (key y)) xs")
  have "sorted_wrt (\<lambda>a b. g (key a) \<le> g (key b)) (if d then rev (take n xs) else take n xs)"
    using count_run_sorted [of "set xs" "\<lambda>x y. lt (key x) (key y)" "\<lambda>x. g (key x)" xs n d]
      emb run by simp
  moreover have "set (if d then rev (take n xs) else take n xs) \<subseteq> set xs"
    using set_take_subset [of n xs] by auto
  moreover have "set (drop n xs) \<subseteq> set xs"
    by (rule set_drop_subset)
  ultimately have "sorted_wrt (\<lambda>a b. g (key a) \<le> g (key b))
      (binarysort (\<lambda>x y. lt (key x) (key y)) (if d then rev (take n xs) else take n xs) (drop n xs))"
    using binarysort_sorted [of "set xs" "\<lambda>x y. lt (key x) (key y)" "\<lambda>x. g (key x)"] emb
    by blast
  then show ?thesis
    by (simp add: list_sort_def run Let_def)
qed

section \<open>The order of the displayed rows\<close>

lemma share_key_not_nan: "high_share d \<noteq> Some FNaN \<Longrightarrow> share_key d \<noteq> FNaN"
  by (auto simp: share_key_def fl_truthy_def split: option.splits)

lemma share_below_not_nan: "share_below threshold d \<Longrightarrow> high_share d \<noteq> Some FNaN"
  by (auto simp: share_below_def)

lemma filter_err_subset: "filter_err p xs = Inr ys \<Longrightarrow> set ys \<subseteq> set xs"
  by (induction xs arbitrary: ys) (auto split: sum.splits if_splits)

text \<open>On keys that are not NaN the sort puts the records in ascending order of the key.\<close>

lemma sort_by_share_sorted:
  assumes "\<forall>d\<in>set data. share_key d \<noteq> FNaN"
  shows "sorted_wrt (\<lambda>a b. fl_le (share_key a) (share_key b)) (sort_by_share data)"
proof -
  define rk :: "pyfloat \<Rightarrow> int \<times> rat"
    where "rk = (\<lambda>x. case x of Fl q \<Rightarrow> (0, q) | PInf \<Rightarrow> (1, 0) | NInf \<Rightarrow> (- 1, 0) | FNaN \<Rightarrow> (2, 0))"
  have less: "fl_less a b \<longleftrightarrow> rk a < rk b" if "a \<noteq> FNaN" and "b \<noteq> FNaN" for a b
    using that by (cases a; cases b) (simp_all add: rk_def)
  have le: "rk a \<le> rk b \<Longrightarrow> fl_le a b" if "a \<noteq> FNaN" and "b \<noteq> FNaN" for a b
    using that by (cases a; cases b) (simp_all add: rk_def)
  have emb: "fl_less (share_key x) (share_key y) \<longleftrightarrow> rk (share_key x) < rk (share_key y)"
    if "x \<in> set data" and "y \<in> set data" for x y
    using that assms by (intro less) simp_all
  have srt: "sorted_wrt (\<lambda>a b. rk (share_key a) \<le> rk (share_key b))
               (list_sort share_key fl_less data)"
    using emb by (rule list_sort_sorted)
  have set_eq: "set (list_sort share_key fl_less data) = set data"
    using list_sort_mset [of share_key fl_less data] by (rule mset_eq_setD)
  have "sorted_wrt (\<lambda>a b. fl_le (share_key a) (share_key b)) (list_sort share_key fl_less data)"
  proof (rule sorted_wrt_mono_rel [OF _ srt])
    fix x y
    assume "x \<in> set (list_sort share_key fl_less data)"
      and "y \<in> set (list_sort share_key fl_less data)"
      and r: "rk (share_key x) \<le> rk (share_key y)"
    then have "share_key x \<noteq> FNaN" and "share_key y \<noteq> FNaN"
      using assms set_eq by simp_all
    then show "fl_le (share_key x) (share_key y)"
      using r by (rule le)
  qed
  then show ?thesis by (simp add: sort_by_share_def)
qed

lemma sort_by_share_mset: "mset (sort_by_share data) = mset data"
  by (simp add: sort_by_share_def list_sort_mset)

lemma rnd_25: "rnd 25 = 25"
  using rnd_exact [of 4 25 "25 * 2 ^ 48"] by (simp add: power_int_minus)

text \<open>
  C6. The sort of \<^verbatim>\<open>analyze\<close> and \<^verbatim>\<open>optimize\<close>. As stated the claim fails in \<^verbatim>\<open>analyze\<close>
  when a \<open>high_share\<close> is NaN, for which every comparison is false: the rows with
  shares 0.5, NaN, 0.25 are left in this order, the share 0.25 after the share 0.5.
\<close>

theorem sort_by_share_nan:
  "analyze_rows None None
     [sample (Dec False 200 (- 2)) None (Some (Fl (1 / 2))),
      sample (Dec False 200 (- 2)) None (Some FNaN),
      sample (Dec False 200 (- 2)) None (Some (Fl (1 / 4)))]
   = Some [sample (Dec False 200 (- 2)) None (Some (Fl (1 / 2))),
           sample (Dec False 200 (- 2)) None (Some FNaN),
           sample (Dec False 200 (- 2)) None (Some (Fl (1 / 4)))]
   \<and> fl_less (share_key (sample (Dec False 200 (- 2)) None (Some (Fl (1 / 4)))))
        (share_key (sample (Dec False 200 (- 2)) None (Some (Fl (1 / 2)))))"
  by code_simp

text \<open>
  C6, amended. In \<^verbatim>\<open>analyze\<close>, when no \<open>high_share\<close> of the filtered records is NaN (as
  under the invariant that shares lie in \<open>[0, 1]\<close>), and in \<^verbatim>\<open>optimize\<close> always, the
  displayed list is in ascending order of \<open>high_share\<close> with \<^verbatim>\<open>None\<close> counted as 0, and
  it is a permutation of the filtered list.
\<close>

theorem sort_by_share_ascending:
  "(analyze_rows campaign min_share parsed = Some out
      \<and> (\<forall>d\<in>set (analyze_filtered campaign min_share parsed). high_share d \<noteq> Some FNaN)
    \<longrightarrow> sorted_wrt (\<lambda>a b. fl_le (share_key a) (share_key b)) out
        \<and> mset out = mset (analyze_filtered campaign min_share parsed))
   \<and> (optimize_rows max_share parsed = Inr (Some out)
    \<longrightarrow> sorted_wrt (\<lambda>a b. fl_le (share_key a) (share_key b)) out
        \<and> (\<exists>data. optimize_filtered max_share parsed = Inr data \<and> mset out = mset data))
   \<and> (high_share d = None \<longrightarrow> share_key d = Fl 0)"
proof (intro conjI impI)
  assume a: "analyze_rows campaign min_share parsed = Some out
             \<and> (\<forall>d\<in>set (analyze_filtered campaign min_share parsed). high_share d \<noteq> Some FNaN)"
  then have out: "out = sort_by_share (analyze_filtered campaign min_share parsed)"
    by (auto simp: analyze_rows_def Let_def split: if_splits)
  have "\<forall>d\<in>set (analyze_filtered campaign min_share parsed). share_key d \<noteq> FNaN"
    using a share_key_not_nan by blast
  then show "sorted_wrt (\<lambda>a b. fl_le (share_key a) (share_key b)) out"
    unfolding out by (rule sort_by_share_sorted)
  show "mset out = mset (analyze_filtered campaign min_share parsed)"
    unfolding out by (rule sort_by_share_mset)
next
  assume a: "optimize_rows max_share parsed = Inr (Some out)"
  then obtain data where data: "optimize_filtered max_share parsed = Inr data"
    and out: "out = sort_by_share data"
    by (auto simp: optimize_rows_def split: sum.splits if_splits)
  have "set data \<subseteq> set (filter (share_below (float_div max_share 100)) parsed)"
    using data by (intro filter_err_subset [of bid_raised]) (simp add: optimize_filtered_def Let_def)
  then have "\<forall>d\<in>set data. high_share d \<noteq> Some FNaN"
    by (auto dest: share_below_not_nan)
  then have "\<forall>d\<in>set data. share_key d \<noteq> FNaN"
    using share_key_not_nan by blast
  then show "sorted_wrt (\<lambda>a b. fl_le (share_key a) (share_key b)) out"
    unfolding out by (rule sort_by_share_sorted)
  show "\<exists>data. optimize_filtered max_share parsed = Inr data \<and> mset out = mset data"
    using data out by (simp add: sort_by_share_mset)
next
  assume "high_share d = None"
  then show "share_key d = Fl 0" by (simp add: share_key_def)
qed

theorem sort_by_share_ascending_witness:
  "analyze_rows None None
     [sample (Dec False 200 (- 2)) None (Some (Fl (1 / 2))),
      sample (Dec False 200 (- 2)) None None,
      sample (Dec False 200 (- 2)) None (Some (Fl (1 / 4)))]
   = Some [sample (Dec False 200 (- 2)) None None,
           sample (Dec False 200 (- 2)) None (Some (Fl (1 / 4))),
           sample (Dec False 200 (- 2)) None (Some (Fl (1 / 2)))]
   \<and> sorted_wrt (\<lambda>a b. fl_le (share_key a) (share_key b))
       [sample (Dec False 200 (- 2)) None None,
        sample (Dec False 200 (- 2)) None (Some (Fl (1 / 4))),
        sample (Dec False 200 (- 2)) None (Some (Fl (1 / 2)))]
   \<and> optimize_rows (Fl 50)
       [sample (Dec False 200 (- 2)) None (Some (Fl (1 / 4))),
        sample (Dec False 200 (- 2)) None (Some (Fl (3 / 4))),
        sample (Dec False 200 (- 2)) None (Some (Fl 0))]
     = Inr (Some [sample (Dec False 200 (- 2)) None (Some (Fl 0)),
                  sample (Dec False 200 (- 2)) None (Some (Fl (1 / 4)))])
   \<and> sorted_wrt (\<lambda>a b. fl_le (share_key a) (share_key b))
       [sample (Dec False 200 (- 2)) None (Some (Fl 0)),
        sample (Dec False 200 (- 2)) None (Some (Fl (1 / 4)))]"
proof -
  let ?a = "sample (Dec False 200 (- 2)) None (Some (Fl (1 / 2)))"
  let ?n = "sample (Dec False 200 (- 2)) None None"
  let ?b = "sample (Dec False 200 (- 2)) None (Some (Fl (1 / 4)))"
  let ?c = "sample (Dec False 200 (- 2)) None (Some (Fl (3 / 4)))"
  let ?z = "sample (Dec False 200 (- 2)) None (Some (Fl 0))"
  have s1: "sort_by_share [?a, ?n, ?b] = [?n, ?b, ?a]"
    by code_simp
  have h1: "analyze_rows None None [?a, ?n, ?b] = Some [?n, ?b, ?a]"
    by (simp add: analyze_rows_def analyze_filtered_def min_share_filter_def campaign_filter_def
        s1 Let_def)
  have h2: "\<forall>d\<in>set (analyze_filtered None None [?a, ?n, ?b]). high_share d \<noteq> Some FNaN"
    by (simp add: analyze_filtered_def min_share_filter_def campaign_filter_def)
  have t: "float_div (Fl 50) 100 = Fl (1 / 2)"
    by (simp add: float_div_def fl_round_def rnd_half Let_def)
  have m25: "float_mul (Fl (1 / 4)) 100 = Fl 25"
    by (simp add: float_mul_def fl_round_def rnd_25 Let_def)
  have sb: "suggested_bid ?b = Inr (Dec False 25000 (- 4))"
    using dec_mul_exact [of 200 125 "- 2" "- 2" False]
    by (simp add: suggested_bid_def float_lit_half m25 Let_def)
  have sz: "suggested_bid ?z = Inr (Dec False 30000 (- 4))"
    using dec_mul_exact [of 200 150 "- 2" "- 2" False]
    by (simp add: suggested_bid_def float_lit_half float_mul_zero_100 Let_def)
  have rb: "bid_raised ?b = Inr True" "bid_raised ?z = Inr True"
    by (simp_all add: bid_raised_def sb sz dec_gt_def dec_is_nan_def dec_val_def)
  have f: "optimize_filtered (Fl 50) [?b, ?c, ?z] = Inr [?b, ?z]"
    by (simp add: optimize_filtered_def t share_below_def rb Let_def)
  have s2: "sort_by_share [?b, ?z] = [?z, ?b]"
    by code_simp
  have h3: "optimize_rows (Fl 50) [?b, ?c, ?z] = Inr (Some [?z, ?b])"
    by (simp add: optimize_rows_def f s2)
  show ?thesis
    using sort_by_share_ascending [of None None "[?a, ?n, ?b]" "[?n, ?b, ?a]" "Fl 50" ?n]
      sort_by_share_ascending [of None None "[?b, ?c, ?z]" "[?z, ?b]" "Fl 50" ?n]
      h1 h2 h3
    by simp
qed

end
